theory Spec2Isabelle
  imports Main "HOL-Library.Sublist"
begin

section \<open>GitFlow: the branch dependency tree, its rendering and the cascaded rebase\<close>

text \<open>
  A shallow embedding of \<^verbatim>\<open>arcgitflow/gitflow.py\<close>. The version-control system
  is an explicit repository handle (a record of operations over an abstract world
  \<open>'w\<close>); every \<^verbatim>\<open>print\<close> and every mutating git command issued by the program is
  appended to a trace, so that the order of the effects can be stated.
\<close>

subsection \<open>Python strings\<close>

text \<open>\<^verbatim>\<open>s.lstrip(chars)\<close>: drop the leading characters that occur in \<open>chars\<close>.\<close>

definition lstrip :: "string \<Rightarrow> string \<Rightarrow> string" where
  "lstrip chars s = dropWhile (\<lambda>c. c \<in> set chars) s"

text \<open>\<^verbatim>\<open>s.startswith(p)\<close>.\<close>

definition startswith :: "string \<Rightarrow> string \<Rightarrow> bool" where
  "startswith s p = (take (length p) s = p)"

text \<open>
  \<^verbatim>\<open>s.split()\<close>: the maximal runs of non-whitespace characters. A character is a code
  point below 256; the whitespace among them is tab, line feed, vertical tab, form feed,
  carriage return, the four separators 28 to 31, space, next line (133) and no-break
  space (160).
\<close>

definition is_space :: "char \<Rightarrow> bool" where
  "is_space c = (c \<in> set [CHR 0x09, CHR 0x0A, CHR 0x0B, CHR 0x0C, CHR 0x0D,
                              CHR 0x1C, CHR 0x1D, CHR 0x1E, CHR 0x1F, CHR '' '',
                              CHR 0x85, CHR 0xA0])"

fun split_ws :: "string \<Rightarrow> string \<Rightarrow> string list" where
  "split_ws tok [] = (if tok = [] then [] else [tok])"
| "split_ws tok (c # cs) =
     (if is_space c then (if tok = [] then [] else [tok]) @ split_ws [] cs
      else split_ws (tok @ [c]) cs)"

definition py_split :: "string \<Rightarrow> string list" where
  "py_split s = split_ws [] s"

text \<open>
  \<^verbatim>\<open>int(tok)\<close> on a token without whitespace: an optional sign, then decimal digits,
  where single underscores may separate digits. \<open>None\<close> is \<^verbatim>\<open>ValueError\<close>.
\<close>

definition digit_val :: "char \<Rightarrow> nat option" where
  "digit_val c = map_of (zip ''0123456789'' [0, 1, 2, 3, 4, 5, 6, 7, 8, 9]) c"

fun py_digits :: "nat \<Rightarrow> string \<Rightarrow> nat option" where
  "py_digits acc [] = Some acc"
| "py_digits acc (c # cs) =
     (case digit_val c of
        Some d \<Rightarrow> py_digits (10 * acc + d) cs
      | None \<Rightarrow>
          (if c = CHR ''_'' then
             (case cs of
                [] \<Rightarrow> None
              | c' # _ \<Rightarrow> (if digit_val c' = None then None else py_digits acc cs))
           else None))"

definition py_int :: "string \<Rightarrow> int option" where
  "py_int tok =
     (let (neg, body) =
            (case tok of
               [] \<Rightarrow> (False, [])
             | c # cs \<Rightarrow>
                 if c = CHR ''-'' then (True, cs)
                 else if c = CHR ''+'' then (False, cs)
                 else (False, tok))
      in case body of
           [] \<Rightarrow> None
         | d # _ \<Rightarrow>
             (if digit_val d = None then None
              else map_option (\<lambda>n. if neg then - int n else int n) (py_digits 0 body)))"

text \<open>\<^verbatim>\<open>str(i)\<close> for an integer: the decimal digits, with a minus sign when negative.\<close>

definition digit_char :: "nat \<Rightarrow> char" where
  "digit_char d = ''0123456789'' ! d"

fun str_nat :: "nat \<Rightarrow> string" where
  "str_nat n = (if n < 10 then [digit_char n] else str_nat (n div 10) @ [digit_char (n mod 10)])"

declare str_nat.simps [simp del]

definition str_int :: "int \<Rightarrow> string" where
  "str_int i = (if i < 0 then ''-'' @ str_nat (nat (- i)) else str_nat (nat i))"

text \<open>
  \<^verbatim>\<open>termcolor.colored(text, color)\<close>: the text between the escape sequence of the colour
  and the reset sequence. No theorem below depends on the shape of the escape codes.
\<close>

definition colored :: "string \<Rightarrow> string \<Rightarrow> string" where
  "colored text color =
     (let code = (if color = ''red'' then ''31'' else if color = ''green'' then ''32''
                  else if color = ''yellow'' then ''33'' else ''0'')
      in [CHR 0x1B] @ ''['' @ code @ ''m'' @ text @ [CHR 0x1B] @ ''[0m'')"

definition replace_colored :: "string \<Rightarrow> string \<Rightarrow> string" where
  "replace_colored string color = string"

subsection \<open>Branches\<close>

text \<open>
  A GitPython \<^verbatim>\<open>Head\<close>: the program reads its \<^verbatim>\<open>name\<close> and the name of its
  \<^verbatim>\<open>tracking_branch()\<close> (\<open>None\<close> when no upstream is configured) and nothing else.
\<close>

record branch =
  name :: string
  tracking_branch :: "string option"

datatype error =
    AssertionError string
  | AttributeError string
  | ValueError
  | GitCommandError string
  | CascadeException string
  | DagParseException string

text \<open>
  The argument of \<^verbatim>\<open>branch_name\<close> is \<^verbatim>\<open>None\<close>, a string, or an object with a
  \<^verbatim>\<open>name\<close> attribute (a head or a remote reference).
\<close>

datatype py_branch = PyStr string | PyRef string

definition ref_name :: "string \<Rightarrow> string" where
  "ref_name n = lstrip ''./'' n"

fun branch_name :: "py_branch option \<Rightarrow> error + string" where
  "branch_name None = Inl (AssertionError ''Must have a valid branch to get the name!'')"
| "branch_name (Some (PyStr s)) = Inr s"
| "branch_name (Some (PyRef n)) = Inr (ref_name n)"

subsection \<open>The DAG builder\<close>

text \<open>
  \<^verbatim>\<open>dag\<close> is a \<^verbatim>\<open>defaultdict(list)\<close> from branch names to lists of heads. Only
  membership and lookup are used by the program, so it is a map.
\<close>

type_synonym dag = "string \<rightharpoonup> branch list"

text \<open>\<^verbatim>\<open>dag.setdefault(k, [])\<close> and \<^verbatim>\<open>dag[k].append(b)\<close> on a \<^verbatim>\<open>defaultdict(list)\<close>.\<close>

definition setdefault :: "dag \<Rightarrow> string \<Rightarrow> dag" where
  "setdefault dag k = (case dag k of None \<Rightarrow> dag(k \<mapsto> []) | Some _ \<Rightarrow> dag)"

definition dag_append :: "dag \<Rightarrow> string \<Rightarrow> branch \<Rightarrow> dag" where
  "dag_append dag k b = dag(k \<mapsto> (case dag k of None \<Rightarrow> [] | Some bs \<Rightarrow> bs) @ [b])"

text \<open>
  The loop of \<^verbatim>\<open>build_git_dag\<close> over \<^verbatim>\<open>r.branches\<close>. \<^verbatim>\<open>branch_name(b)\<close> is called on
  head objects only (never \<^verbatim>\<open>None\<close>), where it is \<open>ref_name\<close> of the name.
\<close>

fun build_git_dag_loop :: "branch list \<Rightarrow> dag \<Rightarrow> string list \<Rightarrow> dag \<times> string list" where
  "build_git_dag_loop [] dag roots = (dag, roots)"
| "build_git_dag_loop (b # bs) dag roots =
     (let bname = ref_name (name b);
          dag = setdefault dag bname
      in case tracking_branch b of
           Some tb \<Rightarrow>
             (let tbname = ref_name tb;
                  roots = (if startswith tbname ''origin'' then roots @ [tbname] else roots)
              in build_git_dag_loop bs (dag_append dag tbname b) roots)
         | None \<Rightarrow> build_git_dag_loop bs dag (roots @ [bname]))"

definition build_git_dag :: "branch list \<Rightarrow> dag \<times> string list" where
  "build_git_dag bs = build_git_dag_loop bs Map.empty []"

subsection \<open>The repository handle and the effects of the program\<close>

text \<open>
  The GitPython handle \<^verbatim>\<open>repo\<close>, as the operations the program calls on it. A query
  reads the world; a command returns its outcome and the world it leaves, where
  \<open>Some msg\<close> is a \<^verbatim>\<open>GitCommandError\<close> whose \<^verbatim>\<open>str\<close> is \<open>msg\<close>.
  \<^item> \<open>branches\<close>: \<^verbatim>\<open>repo.branches\<close>;
  \<^item> \<open>get_active_branch\<close>: \<^verbatim>\<open>repo.active_branch\<close>, the name of the head, or \<open>Inl msg\<close>
    for the \<^verbatim>\<open>TypeError\<close> of a detached \<^verbatim>\<open>HEAD\<close>;
  \<^item> \<open>rev_list_count\<close>: \<^verbatim>\<open>git rev-list --count --left-right <range>\<close>, its standard
    output or \<open>Inl msg\<close>;
  \<^item> \<open>git_rebase w new_base feature\<close>:
    \<^verbatim>\<open>git rebase --reapply-cherry-picks --fork-point new_base feature\<close>;
  \<^item> \<open>git_rebase_abort\<close>: \<^verbatim>\<open>git rebase --abort\<close>;
  \<^item> \<open>git_push w b\<close>: \<^verbatim>\<open>git push --force origin b --no-verify\<close>;
  \<^item> \<open>git_checkout w b\<close>: \<^verbatim>\<open>repo.git.checkout(b)\<close>, where \<open>b\<close> may be \<^verbatim>\<open>None\<close>;
  \<^item> \<open>remote_fetch w b\<close>: \<^verbatim>\<open>repo.remote().fetch(b)\<close>;
  \<^item> \<open>git_reset_keep w ref\<close>: \<^verbatim>\<open>git reset --keep ref\<close>.
\<close>

record 'w repo =
  branches :: "'w \<Rightarrow> branch list"
  get_active_branch :: "'w \<Rightarrow> string + string"
  rev_list_count :: "'w \<Rightarrow> string \<Rightarrow> string + string"
  git_rebase :: "'w \<Rightarrow> string \<Rightarrow> string \<Rightarrow> string option \<times> 'w"
  git_rebase_abort :: "'w \<Rightarrow> string option \<times> 'w"
  git_push :: "'w \<Rightarrow> string \<Rightarrow> string option \<times> 'w"
  git_checkout :: "'w \<Rightarrow> string option \<Rightarrow> string option \<times> 'w"
  remote_fetch :: "'w \<Rightarrow> string \<Rightarrow> string option \<times> 'w"
  git_reset_keep :: "'w \<Rightarrow> string \<Rightarrow> string option \<times> 'w"

datatype git_cmd =
    Rebase string string
  | RebaseAbort
  | Push string
  | Checkout "string option"
  | Fetch string
  | ResetKeep string

text \<open>An effect: a line printed, or a git command together with its outcome.\<close>

datatype event = Stdout string | Git git_cmd "string option"

record 'w st =
  world :: 'w
  trace :: "event list"

type_synonym ('a, 'w) result = "(error + 'a) \<times> 'w st"

definition print :: "string \<Rightarrow> 'w st \<Rightarrow> 'w st" where
  "print line s = s\<lparr>trace := trace s @ [Stdout line]\<rparr>"

definition run_git :: "git_cmd \<Rightarrow> ('w \<Rightarrow> string option \<times> 'w) \<Rightarrow> 'w st \<Rightarrow> string option \<times> 'w st" where
  "run_git c f s =
     (case f (world s) of (res, w') \<Rightarrow> (res, \<lparr>world = w', trace = trace s @ [Git c res]\<rparr>))"

subsection \<open>The divergence calculator\<close>

text \<open>
  The \<^verbatim>\<open>try\<close> block raises when the command fails, when a token is not an integer and
  when the tokens are not exactly two; \<^verbatim>\<open>except Exception\<close> turns each of them into
  \<^verbatim>\<open>(None, None)\<close>.
\<close>

definition commit_delta_try :: "string \<Rightarrow> string \<Rightarrow> 'w repo \<Rightarrow> 'w \<Rightarrow> error + int \<times> int" where
  "commit_delta_try cur_branch_name parent_branch_name r w =
     (case rev_list_count r w (cur_branch_name @ ''...'' @ parent_branch_name) of
        Inl msg \<Rightarrow> Inl (GitCommandError msg)
      | Inr delta_str \<Rightarrow>
          (case those (map py_int (py_split delta_str)) of
             None \<Rightarrow> Inl ValueError
           | Some counts \<Rightarrow>
               (case counts of
                  [parent_divergence, cur_branch_divergence] \<Rightarrow>
                    Inr (parent_divergence, cur_branch_divergence)
                | _ \<Rightarrow> Inl ValueError)))"

definition commit_delta_by_branch_name ::
  "string \<Rightarrow> string \<Rightarrow> 'w repo \<Rightarrow> 'w \<Rightarrow> error + int option \<times> int option" where
  "commit_delta_by_branch_name cur_branch_name parent_branch_name r w =
     (case commit_delta_try cur_branch_name parent_branch_name r w of
        Inr (a, b) \<Rightarrow> Inr (Some a, Some b)
      | Inl e \<Rightarrow> Inr (None, None))"

subsection \<open>The line of one branch\<close>

definition create_branch_str ::
  "string \<Rightarrow> py_branch option \<Rightarrow> nat \<Rightarrow> string \<Rightarrow> 'w repo option \<Rightarrow> bool \<Rightarrow> 'w \<Rightarrow> error + string" where
  "create_branch_str bname active_branch depth parent_bname repo no_color w =
     (let color_fn = (if no_color then replace_colored else colored);
          tabstr = concat (replicate depth ''  '');
          branch_str = (if depth = 0 then '' '' @ bname else tabstr @ '' |-> '' @ bname)
      in case (case repo of
                 Some r \<Rightarrow>
                   (if parent_bname \<noteq> [] then
                      (case commit_delta_by_branch_name bname parent_bname r w of
                         Inl e \<Rightarrow> Inl e
                       | Inr (cur_ahead, parent_ahead) \<Rightarrow>
                           (let branch_str = branch_str @ ''  '';
                                parent_ahead_str =
                                  (case parent_ahead of
                                     None \<Rightarrow> ''?''
                                   | Some p \<Rightarrow>
                                       if p \<noteq> 0 then color_fn (''-'' @ str_int p) ''red''
                                       else ''-'' @ str_int p);
                                cur_ahead_str =
                                  (case cur_ahead of
                                     None \<Rightarrow> ''?''
                                   | Some c \<Rightarrow>
                                       if c \<noteq> 0 then color_fn (''+'' @ str_int c) ''green''
                                       else ''-'' @ str_int c)
                            in if cur_ahead = None \<or> parent_ahead = None then
                                 Inr (color_fn (branch_str @ ''(Upstream Branch Not Found)'') ''red'')
                               else
                                 Inr (branch_str @ ''('' @ parent_ahead_str @ '', '' @ cur_ahead_str @ '')'')))
                    else Inr branch_str)
               | None \<Rightarrow> Inr branch_str) of
           Inl e \<Rightarrow> Inl e
         | Inr branch_str \<Rightarrow>
             (case branch_name active_branch of
                Inl e \<Rightarrow> Inl e
              | Inr active_bname \<Rightarrow>
                  if bname = active_bname then
                    Inr (color_fn (branch_str @ '' *(active branch)'') ''green'')
                  else Inr branch_str))"

subsection \<open>The VCS primitives with their exception handling\<close>

definition active_branch_from_repo :: "'w repo option \<Rightarrow> bool \<Rightarrow> 'w st \<Rightarrow> py_branch option \<times> 'w st" where
  "active_branch_from_repo repo verbose s =
     (case repo of
        None \<Rightarrow> (None, s)
      | Some r \<Rightarrow>
          (case get_active_branch r (world s) of
             Inr head \<Rightarrow> (Some (PyRef head), s)
           | Inl e \<Rightarrow>
               (None, if verbose then print (''Could not get active branch due to error: '' @ e) s
                      else s)))"

definition str_exc :: "error \<Rightarrow> string" where
  "str_exc e =
     (case e of
        AssertionError m \<Rightarrow> m
      | AttributeError m \<Rightarrow> m
      | ValueError \<Rightarrow> []
      | GitCommandError m \<Rightarrow> m
      | CascadeException m \<Rightarrow> m
      | DagParseException m \<Rightarrow> m)"

definition refresh_branch :: "py_branch option \<Rightarrow> 'w repo \<Rightarrow> 'w st \<Rightarrow> (unit, 'w) result" where
  "refresh_branch branch r s =
     (case (case branch_name branch of
              Inl e \<Rightarrow> (Some (str_exc e), s)
            | Inr bn \<Rightarrow>
                (case run_git (Fetch bn) (\<lambda>w. remote_fetch r w bn) s of
                   (Some msg, s1) \<Rightarrow> (Some msg, s1)
                 | (None, s1) \<Rightarrow>
                     run_git (ResetKeep (''origin/'' @ bn))
                       (\<lambda>w. git_reset_keep r w (''origin/'' @ bn)) s1)) of
        (None, s') \<Rightarrow> (Inr (), s')
      | (Some msg, s') \<Rightarrow>
          (case branch_name branch of
             Inl e \<Rightarrow> (Inl e, s')
           | Inr bn \<Rightarrow>
               (Inr (), print (''Failed to refresh '' @ bn @ '' with error:'' @ [CHR 0x0A]
                               @ colored msg ''red'') s')))"

definition abort_reabse :: "'w repo \<Rightarrow> 'w st \<Rightarrow> 'w st" where
  "abort_reabse r s =
     (case run_git RebaseAbort (git_rebase_abort r) s of
        (None, s1) \<Rightarrow> s1
      | (Some msg, s1) \<Rightarrow>
          print (colored msg ''yellow'')
            (print (colored ''Skipping abort rebase since no rebase is in progress'' ''red'') s1))"

definition force_push_no_verify :: "'w repo \<Rightarrow> string \<Rightarrow> 'w st \<Rightarrow> 'w st" where
  "force_push_no_verify r b s =
     (case run_git (Push b) (\<lambda>w. git_push r w b)
             (print (''git push --force origin '' @ b @ '' --no-verify'') s) of
        (None, s1) \<Rightarrow> s1
      | (Some msg, s1) \<Rightarrow>
          print (colored
                   ''Aborting cascade for this branch. Please resolve conflicts on your own.''
                   ''red'')
            (print (colored msg ''yellow'')
               (print (colored ''Failed to push branch due to error:'' ''red'') s1)))"

definition rebase_onto :: "'w repo \<Rightarrow> string \<Rightarrow> string \<Rightarrow> 'w st \<Rightarrow> (string, 'w) result" where
  "rebase_onto r new_base feature_branch s =
     (let rebase_cmd_str =
            ''git rebase -i --reapply-cherry-picks --fork-point '' @ new_base @ '' ''
            @ feature_branch
      in case run_git (Rebase new_base feature_branch)
                (\<lambda>w. git_rebase r w new_base feature_branch) (print rebase_cmd_str s) of
           (None, s1) \<Rightarrow> (Inr rebase_cmd_str, s1)
         | (Some msg, s1) \<Rightarrow> (Inl (GitCommandError msg), s1))"

subsection \<open>The tree walk\<close>

text \<open>
  What the cascade block of one loop iteration of \<^verbatim>\<open>print_tree\<close> leaves: an exception, the
  \<^verbatim>\<open>continue\<close> of the handler, or the fall through to the recursive call.
\<close>

datatype 'w step = Raised error "'w st" | Continue "'w st" | Descend "'w st"

definition cascade_rebase :: "'w repo option \<Rightarrow> string \<Rightarrow> string \<Rightarrow> bool \<Rightarrow> 'w st \<Rightarrow> 'w step" where
  "cascade_rebase repo parent bname push_updates s =
     (case repo of
        None \<Rightarrow> Raised (CascadeException ''Must also supply a repo!'') s
      | Some r \<Rightarrow>
          (case rebase_onto r parent bname
                  (print (''Rebasing '' @ bname @ '' onto '' @ parent @ ''...'') s) of
             (Inr rebase_cmd_str, s1) \<Rightarrow>
               (let s2 = print (''Rebase command: '' @ rebase_cmd_str) s1
                in Descend (if push_updates then force_push_no_verify r bname s2 else s2))
           | (Inl (GitCommandError msg), s1) \<Rightarrow>
               Continue
                 (abort_reabse r
                    (print ''Continuing to next subtree...''
                       (print (colored
                                 ''Aborting cascade for this branch. Please resolve conflicts on your own.''
                                 ''red'')
                          (print (colored msg ''yellow'')
                             (print (colored ''Failed cascade due to error:'' ''red'') s1)))))
           | (Inl e, s1) \<Rightarrow> Raised e s1))"

text \<open>
  \<^verbatim>\<open>print_tree\<close> and its \<^verbatim>\<open>for\<close> loop over the children. The recursion follows the
  DAG, which may be cyclic, so the depth of the recursion is bounded by a fuel argument:
  \<open>None\<close> means that the walk did not return within that depth.
\<close>

fun print_tree ::
  "nat \<Rightarrow> dag \<Rightarrow> string option \<Rightarrow> nat \<Rightarrow> 'w repo option \<Rightarrow> bool \<Rightarrow> bool \<Rightarrow> bool \<Rightarrow> 'w st
   \<Rightarrow> (bool, 'w) result option"
and print_tree_loop ::
  "nat \<Rightarrow> dag \<Rightarrow> branch list \<Rightarrow> py_branch option \<Rightarrow> nat \<Rightarrow> 'w repo option \<Rightarrow> bool \<Rightarrow> bool
   \<Rightarrow> bool \<Rightarrow> 'w st \<Rightarrow> (bool, 'w) result option"
where
  "print_tree 0 dag current_branch_name depth repo cascade color push_updates s = None"
| "print_tree (Suc n) dag current_branch_name depth repo cascade color push_updates s =
     (case active_branch_from_repo repo False s of
        (active_branch, s) \<Rightarrow>
          (case current_branch_name of
             None \<Rightarrow> Some (Inr True, s)
           | Some cur \<Rightarrow>
               (case dag cur of
                  None \<Rightarrow> Some (Inr True, s)
                | Some children \<Rightarrow>
                    if depth = 0 then
                      (case create_branch_str cur active_branch depth [] None (\<not> color)
                              (world s) of
                         Inl e \<Rightarrow> Some (Inl e, s)
                       | Inr line \<Rightarrow>
                           print_tree n dag current_branch_name (depth + 1) repo cascade color
                             push_updates (print line s))
                    else
                      print_tree_loop n dag children active_branch depth repo cascade color
                        push_updates s)))"
| "print_tree_loop n dag [] active_branch depth repo cascade color push_updates s =
     Some (Inr True, s)"
| "print_tree_loop n dag (branch # rest) active_branch depth repo cascade color push_updates s =
     (let bname = ref_name (name branch)
      in case branch_name (map_option PyRef (tracking_branch branch)) of
           Inl e \<Rightarrow> Some (Inl e, s)
         | Inr parent \<Rightarrow>
             (case create_branch_str bname active_branch depth parent repo (\<not> color)
                     (world s) of
                Inl e \<Rightarrow> Some (Inl e, s)
              | Inr line \<Rightarrow>
                  (case (if cascade then
                           cascade_rebase repo parent bname push_updates (print line s)
                         else Descend (print line s)) of
                     Raised e s1 \<Rightarrow> Some (Inl e, s1)
                   | Continue s1 \<Rightarrow>
                       print_tree_loop n dag rest active_branch depth repo cascade color
                         push_updates s1
                   | Descend s1 \<Rightarrow>
                       (case print_tree n dag (Some bname) (depth + 1) repo cascade color
                               push_updates s1 of
                          None \<Rightarrow> None
                        | Some (Inl e, s2) \<Rightarrow> Some (Inl e, s2)
                        | Some (Inr leaf_node_reached, s2) \<Rightarrow>
                            if \<not> leaf_node_reached then Some (Inr False, s2)
                            else
                              print_tree_loop n dag rest active_branch depth repo cascade
                                color push_updates s2))))"

fun print_dag ::
  "nat \<Rightarrow> dag \<Rightarrow> string option list \<Rightarrow> 'w repo option \<Rightarrow> bool \<Rightarrow> bool \<Rightarrow> bool \<Rightarrow> 'w st
   \<Rightarrow> (unit, 'w) result option" where
  "print_dag n dag [] repo cascade color push_updates s = Some (Inr (), s)"
| "print_dag n dag (root_branch_name # roots) repo cascade color push_updates s =
     (case print_tree n dag root_branch_name 0 repo cascade color push_updates s of
        None \<Rightarrow> None
      | Some (Inl e, s1) \<Rightarrow> Some (Inl e, s1)
      | Some (Inr ok, s1) \<Rightarrow>
          if \<not> ok then Some (Inr (), s1)
          else print_dag n dag roots repo cascade color push_updates s1)"

subsection \<open>The orchestrator\<close>

text \<open>
  \<^verbatim>\<open>checkout(branch_name, repo, fail)\<close>. The branch given to \<^verbatim>\<open>repo.git.checkout\<close> is a
  name or \<^verbatim>\<open>None\<close>. The handler is \<^verbatim>\<open>except repo.exc.GitCommandError\<close>, and a
  \<^verbatim>\<open>git.Repo\<close> has no attribute \<^verbatim>\<open>exc\<close>: when the checkout fails, looking the handler
  up raises \<^verbatim>\<open>AttributeError\<close>, whatever \<^verbatim>\<open>fail\<close> is, and the body of the handler (its
  message, \<^verbatim>\<open>raise e\<close>, \<^verbatim>\<open>return False\<close>) never runs.
\<close>

definition no_attribute_exc :: string where
  "no_attribute_exc =
     [CHR 0x27] @ ''Repo'' @ [CHR 0x27] @ '' object has no attribute '' @ [CHR 0x27] @ ''exc''
     @ [CHR 0x27]"

definition checkout :: "string option \<Rightarrow> 'w repo \<Rightarrow> bool \<Rightarrow> 'w st \<Rightarrow> (bool, 'w) result" where
  "checkout bname r fail s =
     (case run_git (Checkout bname) (\<lambda>w. git_checkout r w bname) s of
        (None, s1) \<Rightarrow> (Inr True, s1)
      | (Some msg, s1) \<Rightarrow> (Inl (AttributeError no_attribute_exc), s1))"

text \<open>The parsed command line (\<^verbatim>\<open>parse_args\<close>) and what the process finds around it.\<close>

record args =
  args_cascade :: bool
  args_branch :: "string option"
  args_refresh :: bool
  args_color :: bool
  args_push :: bool

text \<open>
  \<open>env_find_git_dir\<close> is the result of \<^verbatim>\<open>find_git_dir()\<close> (\<open>Inl msg\<close> when
  \<^verbatim>\<open>git rev-parse\<close> fails), \<open>env_path_exists\<close> is \<^verbatim>\<open>os.path.exists\<close>, \<open>env_repo\<close> the
  handle that \<^verbatim>\<open>git.Repo\<close> opens and \<open>env_world\<close> the state of the repository at the
  start.
\<close>

record 'w env =
  env_find_git_dir :: "string + string"
  env_path_exists :: "string \<Rightarrow> bool"
  env_repo :: "'w repo"
  env_world :: 'w

definition head_of :: "py_branch option \<Rightarrow> string option" where
  "head_of b = (case b of Some (PyRef n) \<Rightarrow> Some n | Some (PyStr n) \<Rightarrow> Some n | None \<Rightarrow> None)"

definition main :: "nat \<Rightarrow> 'w env \<Rightarrow> args \<Rightarrow> (unit, 'w) result option" where
  "main n env args =
     (let s0 = \<lparr>world = env_world env, trace = []\<rparr>
      in case env_find_git_dir env of
           Inl msg \<Rightarrow> Some (Inl (GitCommandError msg), s0)
         | Inr git_dir \<Rightarrow>
             if \<not> env_path_exists env git_dir then
               Some (Inl (DagParseException ''Must be in git directory!''), s0)
             else
               (let repo = env_repo env
                in case build_git_dag (branches repo (world s0)) of
                     (dag, roots) \<Rightarrow>
                (case active_branch_from_repo (Some repo) True s0 of
                   (initial_active_branch, s1) \<Rightarrow>
                (let active_branch_name =
                       (case initial_active_branch of
                          None \<Rightarrow> None
                        | Some b \<Rightarrow>
                            (case branch_name (Some b) of Inr nm \<Rightarrow> Some nm | Inl e \<Rightarrow> None));
                     no_branch = (args_branch args = None \<or> args_branch args = Some []);
                     branch = (if no_branch then active_branch_name else args_branch args);
                     roots = (if no_branch then map Some roots else [branch])
                 in case (if branch \<noteq> active_branch_name then checkout branch repo True s1
                          else (Inr True, s1)) of
                      (Inl e, s2) \<Rightarrow> Some (Inl e, s2)
                    | (Inr _, s2) \<Rightarrow>
                (let active_branch_name = branch
                 in case (if args_refresh args then
                            refresh_branch (map_option PyStr active_branch_name) repo s2
                          else (Inr (), s2)) of
                      (Inl e, s3) \<Rightarrow> Some (Inl e, s3)
                    | (Inr _, s3) \<Rightarrow>
                (let roots = (if args_cascade args then [active_branch_name] else roots)
                 in case print_dag n dag roots (Some repo) (args_cascade args) (args_color args)
                           (args_push args) s3 of
                      None \<Rightarrow> None
                    | Some (Inl e, s4) \<Rightarrow> Some (Inl e, s4)
                    | Some (Inr _, s4) \<Rightarrow>
                        if args_cascade args then
                          (case run_git (Checkout (head_of initial_active_branch))
                                  (\<lambda>w. git_checkout repo w (head_of initial_active_branch)) s4 of
                             (Some msg, s5) \<Rightarrow> Some (Inl (GitCommandError msg), s5)
                           | (None, s5) \<Rightarrow>
                               print_dag n dag roots (Some repo) False (args_color args) False
                                 (print ''Status after cascade:'' s5))
                        else Some (Inr (), s4)))))))"

text \<open>
  The exit status of the process: \<^verbatim>\<open>sys.exit(main())\<close> exits with 0 when \<^verbatim>\<open>main\<close>
  returns (it returns \<^verbatim>\<open>None\<close>) and with 1 when an exception escapes it.
\<close>

definition exit_status :: "(unit, 'w) result \<Rightarrow> nat" where
  "exit_status res = (case fst res of Inl e \<Rightarrow> 1 | Inr _ \<Rightarrow> 0)"

subsection \<open>Notions used to state the properties\<close>

text \<open>What one enumerated branch contributes to \<^verbatim>\<open>roots\<close>, and whether it tracks \<open>k\<close>.\<close>

definition root_entry :: "branch \<Rightarrow> string list" where
  "root_entry b =
     (case tracking_branch b of
        None \<Rightarrow> [ref_name (name b)]
      | Some tb \<Rightarrow> if startswith (ref_name tb) ''origin'' then [ref_name tb] else [])"

definition tracks :: "string \<Rightarrow> branch \<Rightarrow> bool" where
  "tracks k b = (map_option ref_name (tracking_branch b) = Some k)"

definition entries :: "dag \<Rightarrow> string \<Rightarrow> branch list" where
  "entries dag k = (case dag k of None \<Rightarrow> [] | Some cs \<Rightarrow> cs)"

text \<open>
  The part of one iteration of the loop of \<^verbatim>\<open>print_tree\<close> that comes before the recursive
  call: the line of the child and, in a cascade, its rebase.
\<close>

definition enter_child ::
  "branch \<Rightarrow> py_branch option \<Rightarrow> nat \<Rightarrow> 'w repo option \<Rightarrow> bool \<Rightarrow> bool \<Rightarrow> bool \<Rightarrow> 'w st
   \<Rightarrow> 'w step" where
  "enter_child branch active_branch depth repo cascade color push_updates s =
     (case branch_name (map_option PyRef (tracking_branch branch)) of
        Inl e \<Rightarrow> Raised e s
      | Inr parent \<Rightarrow>
          (case create_branch_str (ref_name (name branch)) active_branch depth parent repo
                  (\<not> color) (world s) of
             Inl e \<Rightarrow> Raised e s
           | Inr line \<Rightarrow>
               if cascade then
                 cascade_rebase repo parent (ref_name (name branch)) push_updates (print line s)
               else Descend (print line s)))"

text \<open>
  The edges of a DAG, from the name of a child to the key that lists it, the names below a
  key, and the shapes of DAG the properties are about: \<open>forest\<close> is a DAG without cycle
  in which a name is listed under one key only, and once.
\<close>

definition child_names :: "dag \<Rightarrow> string \<Rightarrow> string set" where
  "child_names dag p = (\<lambda>b. ref_name (name b)) ` set (entries dag p)"

definition dag_edges :: "dag \<Rightarrow> (string \<times> string) set" where
  "dag_edges dag = {(c, p). c \<in> child_names dag p}"

definition descendants :: "dag \<Rightarrow> string \<Rightarrow> string set" where
  "descendants dag c = {x. (x, c) \<in> (dag_edges dag)\<^sup>+}"

definition forest :: "dag \<Rightarrow> bool" where
  "forest dag =
     (acyclic (dag_edges dag) \<and> single_valued (dag_edges dag)
      \<and> (\<forall>p cs. dag p = Some cs \<longrightarrow> distinct (map (\<lambda>b. ref_name (name b)) cs)))"

definition tracked_children :: "dag \<Rightarrow> bool" where
  "tracked_children dag =
     (\<forall>p cs. dag p = Some cs \<longrightarrow> (\<forall>b \<in> set cs. tracking_branch b \<noteq> None))"

text \<open>
  \<open>I\<close> is a set of states of the repository in which the active branch can be determined
  and that no command of the handle leaves, whether the command succeeds or fails.
\<close>

definition keeps_attached :: "'w repo \<Rightarrow> ('w \<Rightarrow> bool) \<Rightarrow> bool" where
  "keeps_attached r I =
     (\<forall>w. I w \<longrightarrow>
        (\<exists>h. get_active_branch r w = Inr h)
        \<and> (\<forall>new_base feature. I (snd (git_rebase r w new_base feature)))
        \<and> I (snd (git_rebase_abort r w))
        \<and> (\<forall>b. I (snd (git_push r w b)))
        \<and> (\<forall>b. I (snd (git_checkout r w b)))
        \<and> (\<forall>b. I (snd (remote_fetch r w b)))
        \<and> (\<forall>b. I (snd (git_reset_keep r w b))))"

text \<open>
  The branches a trace has rebased, in order, and those whose rebase failed. A cascade
  visits a branch when it rebases it.
\<close>

fun rebased :: "event list \<Rightarrow> string list" where
  "rebased [] = []"
| "rebased (Git (Rebase new_base feature) res # es) = feature # rebased es"
| "rebased (e # es) = rebased es"

fun rebase_failures :: "event list \<Rightarrow> string list" where
  "rebase_failures [] = []"
| "rebase_failures (Git (Rebase new_base feature) (Some msg) # es) = feature # rebase_failures es"
| "rebase_failures (e # es) = rebase_failures es"

text \<open>A trace that only prints.\<close>

definition only_prints :: "event list \<Rightarrow> bool" where
  "only_prints es = (\<forall>e \<in> set es. \<exists>line. e = Stdout line)"

text \<open>The same state with \<open>tr\<close> in front of its trace.\<close>

definition shift :: "event list \<Rightarrow> 'w st \<Rightarrow> 'w st" where
  "shift tr s = s\<lparr>trace := tr @ trace s\<rparr>"

definition shift_step :: "event list \<Rightarrow> 'w step \<Rightarrow> 'w step" where
  "shift_step tr x =
     (case x of
        Raised e s \<Rightarrow> Raised e (shift tr s)
      | Continue s \<Rightarrow> Continue (shift tr s)
      | Descend s \<Rightarrow> Descend (shift tr s))"

text \<open>The decimal digits.\<close>

definition is_digit :: "char \<Rightarrow> bool" where
  "is_digit c = (\<exists>d < 10. c = digit_char d)"

subsection \<open>An example repository\<close>

text \<open>
  Five heads: \<open>master\<close> and \<open>dev\<close> track \<open>origin/master\<close>, \<open>A\<close> and \<open>C\<close> track
  \<open>master\<close>, \<open>B\<close> tracks \<open>A\<close>.
\<close>

definition ex_master :: branch where
  "ex_master = \<lparr>name = ''master'', tracking_branch = Some ''origin/master''\<rparr>"

definition ex_A :: branch where
  "ex_A = \<lparr>name = ''A'', tracking_branch = Some ''master''\<rparr>"

definition ex_B :: branch where
  "ex_B = \<lparr>name = ''B'', tracking_branch = Some ''A''\<rparr>"

definition ex_C :: branch where
  "ex_C = \<lparr>name = ''C'', tracking_branch = Some ''master''\<rparr>"

definition ex_dev :: branch where
  "ex_dev = \<lparr>name = ''dev'', tracking_branch = Some ''origin/master''\<rparr>"

definition ex_untracked :: branch where
  "ex_untracked = \<lparr>name = ''scratch'', tracking_branch = None\<rparr>"

definition ex_X :: branch where
  "ex_X = \<lparr>name = ''X'', tracking_branch = Some ''master''\<rparr>"

definition ex_Y :: branch where
  "ex_Y = \<lparr>name = ''Y'', tracking_branch = Some ''master''\<rparr>"

definition ex_Z :: branch where
  "ex_Z = \<lparr>name = ''Z'', tracking_branch = Some ''X''\<rparr>"

text \<open>A DAG in which \<open>Z\<close> is listed under two keys.\<close>

definition ex_diamond :: dag where
  "ex_diamond = [''master'' \<mapsto> [ex_X, ex_Y], ''X'' \<mapsto> [ex_Z], ''Y'' \<mapsto> [ex_Z]]"

definition ex_branches :: "branch list" where
  "ex_branches = [ex_master, ex_A, ex_B, ex_C, ex_dev, ex_untracked]"

text \<open>
  A repository over these branches. Its state is the checked out branch. The rebase of
  \<open>A\<close> conflicts, every push is rejected, no rebase is ever left to abort, the remote
  cannot be fetched; a checkout without a branch leaves the state as it is. In \<open>ex_repo\<close>
  the head may be detached (\<open>None\<close>), in \<open>ex_repo_on\<close> it never is.
\<close>

definition ex_repo_of :: "('w \<Rightarrow> string + string) \<Rightarrow> (string \<Rightarrow> 'w) \<Rightarrow> 'w repo" where
  "ex_repo_of head on =
     \<lparr>branches = (\<lambda>w. ex_branches),
      get_active_branch = head,
      rev_list_count =
        (\<lambda>w rg. if rg = ''dev...origin/master'' then Inl ''unknown revision''
                    else Inr (''1'' @ [CHR 0x09] @ ''2'')),
      git_rebase = (\<lambda>w new_base feature. (if feature = ''A'' then Some ''conflict'' else None, on feature)),
      git_rebase_abort = (\<lambda>w. (Some ''No rebase in progress?'', w)),
      git_push = (\<lambda>w b. (Some ''rejected'', w)),
      git_checkout =
        (\<lambda>w b. case b of
                  None \<Rightarrow> (None, w)
                | Some n \<Rightarrow>
                    if n \<in> set (map name ex_branches) then (None, on n)
                    else (Some ''pathspec did not match'', w)),
      remote_fetch = (\<lambda>w b. (Some ''no such remote'', w)),
      git_reset_keep = (\<lambda>w ref. (None, w))\<rparr>"

definition ex_repo :: "string option repo" where
  "ex_repo =
     ex_repo_of (\<lambda>w. case w of Some h \<Rightarrow> Inr h | None \<Rightarrow> Inl ''HEAD is a detached symbolic reference'')
       Some"

definition ex_repo_on :: "string repo" where
  "ex_repo_on = ex_repo_of Inr (\<lambda>n. n)"

text \<open>
  The same repository with a branch \<open>orphan\<close> that shares no commit with \<open>master\<close>: for
  such a pair \<^verbatim>\<open>git rev-list --count --left-right orphan...master\<close> succeeds and prints the
  number of commits of each side, here 2 and 1.
\<close>

definition ex_orphan_repo :: "string repo" where
  "ex_orphan_repo =
     ex_repo_on\<lparr>rev_list_count :=
       (\<lambda>w rg. if rg = ''orphan...master'' then Inr (''2'' @ [CHR 0x09] @ ''1'')
                 else rev_list_count ex_repo_on w rg)\<rparr>"

text \<open>A rank that decreases from each key of the example DAG to its children.\<close>

definition ex_rank :: "string \<Rightarrow> nat" where
  "ex_rank c = (if c = ''origin/master'' then 3 else if c = ''master'' then 2
                else if c = ''A'' then 1 else 0)"

text \<open>The lines of the example tree below a root, rendered while \<open>master\<close> is checked out.\<close>

definition ex_lines :: "string option \<Rightarrow> event list" where
  "ex_lines root =
     (if root = Some ''origin/master'' then
        [Stdout '' origin/master'',
         Stdout ''   |-> master  (-2, +1) *(active branch)'',
         Stdout ''     |-> A  (-2, +1)'',
         Stdout ''       |-> B  (-2, +1)'',
         Stdout ''     |-> C  (-2, +1)'',
         Stdout ''   |-> dev  (Upstream Branch Not Found)'']
      else if root = Some ''scratch'' then [Stdout '' scratch'']
      else [])"

section \<open>Verified properties\<close>

subsection \<open>The DAG builder\<close>

lemma build_loop_roots:
  "snd (build_git_dag_loop bs dag roots) = roots @ concat (map root_entry bs)"
  by (induction bs arbitrary: dag roots)
     (auto simp: root_entry_def Let_def split: option.splits)

lemma entries_setdefault: "entries (setdefault dag k) k' = entries dag k'"
  by (auto simp: entries_def setdefault_def split: option.splits)

lemma entries_dag_append:
  "entries (dag_append dag k b) k' = (if k' = k then entries dag k @ [b] else entries dag k')"
  by (auto simp: entries_def dag_append_def split: option.splits)

lemma dom_setdefault: "dom (setdefault dag k) = insert k (dom dag)"
  by (auto simp: setdefault_def split: option.splits)

lemma dom_dag_append: "dom (dag_append dag k b) = insert k (dom dag)"
  by (auto simp: dag_append_def)

lemma build_loop_entries:
  "entries (fst (build_git_dag_loop bs dag roots)) k = entries dag k @ filter (tracks k) bs"
  by (induction bs arbitrary: dag roots)
     (auto simp: Let_def tracks_def entries_setdefault entries_dag_append split: option.splits)

lemma build_loop_dom:
  "dom (fst (build_git_dag_loop bs dag roots)) =
     dom dag \<union> (\<lambda>b. ref_name (name b)) ` set bs
       \<union> {ref_name tb |tb b. b \<in> set bs \<and> tracking_branch b = Some tb}"
proof (induction bs arbitrary: dag roots)
  case Nil
  then show ?case by simp
next
  case (Cons b bs)
  show ?case
  proof (cases "tracking_branch b")
    case None
    then show ?thesis
      by (auto simp: Let_def Cons.IH dom_setdefault)
  next
    case (Some tb)
    then show ?thesis
      by (auto simp: Let_def Cons.IH dom_setdefault dom_dag_append)
  qed
qed

lemma build_git_dag_children:
  "fst (build_git_dag bs) k = Some cs \<Longrightarrow> cs = filter (tracks k) bs"
  using build_loop_entries [of bs Map.empty "[]" k]
  by (simp add: build_git_dag_def entries_def)

lemma build_git_dag_roots: "snd (build_git_dag bs) = concat (map root_entry bs)"
  by (simp add: build_git_dag_def build_loop_roots)

lemma count_list_filter: "P b \<Longrightarrow> count_list (filter P bs) b = count_list bs b"
  by (induction bs) auto

lemma count_list_distinct: "distinct bs \<Longrightarrow> b \<in> set bs \<Longrightarrow> count_list bs b = 1"
  by (induction bs) (auto simp: count_list_0_iff)

text \<open>
  C2. For every enumeration \<open>bs\<close> of local branches: a branch without tracking branch
  has its name in the roots; a branch with tracking branch \<open>tb\<close> is in the child list
  stored under the name of \<open>tb\<close> (an entry that exists whether or not \<open>tb\<close> is local), as
  often as it is enumerated, hence exactly once when the enumeration has no repetition;
  and the name of \<open>tb\<close> is in the roots when it starts with \<open>origin\<close>.
\<close>

text \<open>
  C2. For every enumeration \<open>bs\<close> of local branches: a branch without tracking branch
  has its name in the roots; a branch with tracking branch \<open>tb\<close> is in the child list
  stored under the name of \<open>tb\<close> (an entry that exists whether or not \<open>tb\<close> is local), as
  often as it is enumerated, hence exactly once when the enumeration has no repetition;
  and the name of \<open>tb\<close> is in the roots when it starts with \<open>origin\<close>.
\<close>

theorem build_git_dag_correct:
  "\<forall>b \<in> set bs.
     (case tracking_branch b of
        None \<Rightarrow> ref_name (name b) \<in> set (snd (build_git_dag bs))
      | Some tb \<Rightarrow>
          (\<exists>cs. fst (build_git_dag bs) (ref_name tb) = Some cs
                \<and> count_list cs b = count_list bs b
                \<and> (distinct bs \<longrightarrow> count_list cs b = 1))
          \<and> (startswith (ref_name tb) ''origin''
               \<longrightarrow> ref_name tb \<in> set (snd (build_git_dag bs))))"
proof
  fix b assume b: "b \<in> set bs"
  show "case tracking_branch b of
        None \<Rightarrow> ref_name (name b) \<in> set (snd (build_git_dag bs))
      | Some tb \<Rightarrow>
          (\<exists>cs. fst (build_git_dag bs) (ref_name tb) = Some cs
                \<and> count_list cs b = count_list bs b
                \<and> (distinct bs \<longrightarrow> count_list cs b = 1))
          \<and> (startswith (ref_name tb) ''origin''
               \<longrightarrow> ref_name tb \<in> set (snd (build_git_dag bs)))"
  proof (cases "tracking_branch b")
    case None
    with b show ?thesis
      by (auto simp: build_git_dag_roots root_entry_def intro!: bexI[of _ b])
  next
    case (Some tb)
    have "ref_name tb \<in> dom (fst (build_git_dag bs))"
      using b Some by (auto simp: build_git_dag_def build_loop_dom)
    then obtain cs where cs: "fst (build_git_dag bs) (ref_name tb) = Some cs" by auto
    have tr: "tracks (ref_name tb) b" by (simp add: tracks_def Some)
    have c1: "count_list cs b = count_list bs b"
      using build_git_dag_children [OF cs] tr by (simp add: count_list_filter)
    have c2: "distinct bs \<longrightarrow> count_list cs b = 1"
      using c1 b by (simp add: count_list_distinct)
    have r: "startswith (ref_name tb) ''origin''
             \<longrightarrow> ref_name tb \<in> set (snd (build_git_dag bs))"
      using b Some by (auto simp: build_git_dag_roots root_entry_def intro!: bexI[of _ b])
    show ?thesis using Some cs c1 c2 r by simp
  qed
qed

lemma ex_branches_distinct: "distinct ex_branches"
  by (simp add: ex_branches_def ex_master_def ex_A_def ex_B_def ex_C_def ex_dev_def
        ex_untracked_def)

theorem build_git_dag_correct_witness:
  "ex_untracked \<in> set ex_branches \<and> ex_dev \<in> set ex_branches \<and> distinct ex_branches
   \<and> ''scratch'' \<in> set (snd (build_git_dag ex_branches))
   \<and> (\<exists>cs. fst (build_git_dag ex_branches) ''origin/master'' = Some cs
            \<and> count_list cs ex_dev = 1)
   \<and> ''origin/master'' \<in> set (snd (build_git_dag ex_branches))"
proof -
  have u: "ex_untracked \<in> set ex_branches" and d: "ex_dev \<in> set ex_branches"
    by (simp_all add: ex_branches_def)
  have rn: "ref_name ''origin/master'' = ''origin/master''" "ref_name ''scratch'' = ''scratch''"
    by (simp_all add: ref_name_def lstrip_def)
  have sw: "startswith ''origin/master'' ''origin''"
    by (simp add: startswith_def)
  have tu: "tracking_branch ex_untracked = None" "name ex_untracked = ''scratch''"
    and td: "tracking_branch ex_dev = Some ''origin/master''"
    by (simp_all add: ex_untracked_def ex_dev_def)
  have 1: "''scratch'' \<in> set (snd (build_git_dag ex_branches))"
    using build_git_dag_correct [of ex_branches, THEN bspec, OF u]
    by (simp add: tu rn)
  have 2: "(\<exists>cs. fst (build_git_dag ex_branches) ''origin/master'' = Some cs
            \<and> count_list cs ex_dev = count_list ex_branches ex_dev
            \<and> (distinct ex_branches \<longrightarrow> count_list cs ex_dev = 1))
      \<and> (startswith ''origin/master'' ''origin''
           \<longrightarrow> ''origin/master'' \<in> set (snd (build_git_dag ex_branches)))"
    using build_git_dag_correct [of ex_branches, THEN bspec, OF d]
    by (simp add: td rn)
  from 2 sw ex_branches_distinct
  have 3: "(\<exists>cs. fst (build_git_dag ex_branches) ''origin/master'' = Some cs
            \<and> count_list cs ex_dev = 1)
           \<and> ''origin/master'' \<in> set (snd (build_git_dag ex_branches))"
    by blast
  from u d ex_branches_distinct 1 3 show ?thesis by blast
qed

lemma ex_names:
  "ref_name ''master'' = ''master''" "ref_name ''A'' = ''A''" "ref_name ''B'' = ''B''"
  "ref_name ''C'' = ''C''" "ref_name ''dev'' = ''dev''" "ref_name ''scratch'' = ''scratch''"
  "ref_name ''origin/master'' = ''origin/master''"
  by (simp_all add: ref_name_def lstrip_def)

lemmas ex_defs = ex_branches_def ex_master_def ex_A_def ex_B_def ex_C_def ex_dev_def
  ex_untracked_def

lemma ex_dag:
  "fst (build_git_dag ex_branches) =
     [''master'' \<mapsto> [ex_A, ex_C], ''origin/master'' \<mapsto> [ex_master, ex_dev],
      ''A'' \<mapsto> [ex_B], ''B'' \<mapsto> [], ''C'' \<mapsto> [], ''dev'' \<mapsto> [], ''scratch'' \<mapsto> []]"
  by (rule ext)
     (simp add: build_git_dag_def ex_defs setdefault_def dag_append_def Let_def ex_names)

lemma ex_roots:
  "snd (build_git_dag ex_branches) = [''origin/master'', ''origin/master'', ''scratch'']"
  by (simp add: build_git_dag_def ex_defs setdefault_def dag_append_def Let_def ex_names
        startswith_def)

lemma ex_dag_topic: "fst (build_git_dag ex_branches) ''topic'' = None"
  by (simp add: ex_dag)

subsection \<open>A start branch that is not in the DAG\<close>

text \<open>
  C6. For every DAG and every start branch name that is not a key of the DAG
  (\<^verbatim>\<open>None\<close> is never a key), the walk returns \<^verbatim>\<open>True\<close> at once: no exception, no
  line printed, no command issued, the state unchanged. It holds at every recursion
  depth bound that allows the call itself, so no recursive call is made.
\<close>

theorem print_tree_absent:
  "cur = None \<or> (\<exists>c. cur = Some c \<and> dag c = None) \<Longrightarrow>
   print_tree (Suc n) dag cur depth repo cascade color push_updates s = Some (Inr True, s)"
  by (auto simp: active_branch_from_repo_def split: option.splits sum.splits)

theorem print_tree_absent_witness:
  "(\<exists>c. Some ''topic'' = Some c \<and> fst (build_git_dag ex_branches) c = None)
   \<and> print_tree (Suc 0) (fst (build_git_dag ex_branches)) (Some ''topic'') 0
         (None :: unit repo option) True True True \<lparr>world = (), trace = []\<rparr>
       = Some (Inr True, \<lparr>world = (), trace = []\<rparr>)"
proof -
  have h: "Some ''topic'' = None
      \<or> (\<exists>c. Some ''topic'' = Some c \<and> fst (build_git_dag ex_branches) c = None)"
    by (simp add: ex_dag_topic)
  show ?thesis
    using ex_dag_topic print_tree_absent [OF h, of 0 0 "None :: unit repo option" True True True
        "\<lparr>world = (), trace = []\<rparr>"]
    by simp
qed

subsection \<open>The divergence calculator\<close>

lemma lt10_cases:
  "(d::nat) < 10 \<Longrightarrow>
   d = 0 \<or> d = 1 \<or> d = 2 \<or> d = 3 \<or> d = 4 \<or> d = 5 \<or> d = 6 \<or> d = 7 \<or> d = 8 \<or> d = 9"
  by arith

lemma digit_val_digit_char: "d < 10 \<Longrightarrow> digit_val (digit_char d) = Some d"
  by (drule lt10_cases, elim disjE) (simp_all add: digit_val_def digit_char_def)

lemma not_space_digit_char: "d < 10 \<Longrightarrow> \<not> is_space (digit_char d)"
  by (drule lt10_cases, elim disjE) (simp_all add: is_space_def digit_char_def)

lemma str_nat_digits: "\<forall>c \<in> set (str_nat n). is_digit c"
proof (induction n rule: str_nat.induct)
  case (1 n)
  show ?case
  proof (cases "n < 10")
    case True
    then show ?thesis by (subst str_nat.simps) (auto simp: is_digit_def)
  next
    case False
    have "is_digit (digit_char (n mod 10))"
      unfolding is_digit_def by (rule exI [of _ "n mod 10"]) simp
    with False 1 show ?thesis
      by (subst str_nat.simps) simp
  qed
qed

lemma str_nat_nonempty: "str_nat n \<noteq> []"
  by (subst str_nat.simps) simp

lemma py_digits_append:
  "\<forall>c \<in> set ds. is_digit c \<Longrightarrow> d < 10 \<Longrightarrow> py_digits acc ds = Some m \<Longrightarrow>
   py_digits acc (ds @ [digit_char d]) = Some (10 * m + d)"
proof (induction ds arbitrary: acc)
  case Nil
  then show ?case by (simp add: digit_val_digit_char)
next
  case (Cons c ds)
  from Cons.prems(1) obtain e where e: "e < 10" "c = digit_char e"
    by (auto simp: is_digit_def)
  with Cons show ?case
    by (simp add: digit_val_digit_char)
qed

lemma py_digits_str_nat: "py_digits 0 (str_nat n) = Some n"
proof (induction n rule: str_nat.induct)
  case (1 n)
  show ?case
  proof (cases "n < 10")
    case True
    then show ?thesis by (subst str_nat.simps) (simp add: digit_val_digit_char)
  next
    case False
    then have ih: "py_digits 0 (str_nat (n div 10)) = Some (n div 10)" using 1 by simp
    have "py_digits 0 (str_nat (n div 10) @ [digit_char (n mod 10)])
          = Some (10 * (n div 10) + n mod 10)"
      by (rule py_digits_append [OF str_nat_digits _ ih]) simp
    with False show ?thesis by (subst str_nat.simps) simp
  qed
qed

lemma hd_str_nat_digit: "\<exists>d cs. d < 10 \<and> str_nat n = digit_char d # cs"
proof -
  obtain c cs where c: "str_nat n = c # cs" using str_nat_nonempty [of n] by (cases "str_nat n") auto
  with str_nat_digits [of n] have "is_digit c" by simp
  with c show ?thesis by (auto simp: is_digit_def)
qed

lemma digit_char_not_sign: "d < 10 \<Longrightarrow> digit_char d \<noteq> CHR ''-'' \<and> digit_char d \<noteq> CHR ''+''"
  by (drule lt10_cases, elim disjE) (simp_all add: digit_char_def)

lemma py_int_str_nat: "py_int (str_nat n) = Some (int n)"
proof -
  obtain d cs where d: "d < 10" "str_nat n = digit_char d # cs"
    using hd_str_nat_digit by blast
  have "py_digits 0 (digit_char d # cs) = Some n"
    using py_digits_str_nat [of n] d by simp
  then show ?thesis
    using d digit_char_not_sign [OF d(1)] digit_val_digit_char [OF d(1)]
    by (simp add: py_int_def del: py_digits.simps)
qed

lemma split_ws_nospace:
  "\<forall>c \<in> set xs. \<not> is_space c \<Longrightarrow> split_ws tok (xs @ rest) = split_ws (tok @ xs) rest"
  by (induction xs arbitrary: tok) auto

lemma str_nat_nospace: "\<forall>c \<in> set (str_nat n). \<not> is_space c"
  using str_nat_digits [of n] by (auto simp: is_digit_def not_space_digit_char)

lemma py_split_counts:
  "py_split (str_nat l @ CHR 0x09 # str_nat r) = [str_nat l, str_nat r]"
proof -
  have "split_ws [] (str_nat l @ (CHR 0x09 # str_nat r))
        = split_ws ([] @ str_nat l) (CHR 0x09 # str_nat r)"
    by (rule split_ws_nospace [OF str_nat_nospace])
  also have "\<dots> = [str_nat l] @ split_ws [] (str_nat r @ [])"
    by (simp add: is_space_def str_nat_nonempty)
  also have "split_ws [] (str_nat r @ []) = split_ws ([] @ str_nat r) []"
    by (rule split_ws_nospace [OF str_nat_nospace])
  finally show ?thesis by (simp add: py_split_def str_nat_nonempty)
qed

lemma commit_delta_returns: "\<exists>p. commit_delta_by_branch_name a b r w = Inr p"
  by (auto simp: commit_delta_by_branch_name_def split: sum.splits)

lemma commit_delta_failure:
  "rev_list_count r w (a @ ''...'' @ b) = Inl msg \<Longrightarrow>
   commit_delta_by_branch_name a b r w = Inr (None, None)"
  by (simp add: commit_delta_by_branch_name_def commit_delta_try_def)

lemma commit_delta_counts:
  "rev_list_count r w (a @ ''...'' @ b) = Inr (str_nat l @ [CHR 0x09] @ str_nat rt) \<Longrightarrow>
   commit_delta_by_branch_name a b r w = Inr (Some (int l), Some (int rt))"
  by (simp add: commit_delta_by_branch_name_def commit_delta_try_def py_split_counts
        py_int_str_nat)

text \<open>
  C4, as amended. \<^verbatim>\<open>commit_delta_by_branch_name(a, b, repo)\<close> never raises: it always
  returns a pair. When the command \<^verbatim>\<open>git rev-list --count --left-right a...b\<close> fails (a
  missing ref, any error of the VCS), the pair is \<^verbatim>\<open>(None, None)\<close>. When the command
  prints its two counts (first the commits reachable from \<open>a\<close> and not from \<open>b\<close>, then
  those reachable from \<open>b\<close> and not from \<open>a\<close>, separated by a tab), the pair is these two
  counts, in this order; this is also what happens for two refs without common ancestor
  and on a detached head, where the command does not fail.
\<close>

theorem commit_delta_by_branch_name_total:
  "(\<exists>p. commit_delta_by_branch_name a b r w = Inr p)
   \<and> (\<forall>msg. rev_list_count r w (a @ ''...'' @ b) = Inl msg
         \<longrightarrow> commit_delta_by_branch_name a b r w = Inr (None, None))
   \<and> (\<forall>l rt. rev_list_count r w (a @ ''...'' @ b) = Inr (str_nat l @ [CHR 0x09] @ str_nat rt)
         \<longrightarrow> commit_delta_by_branch_name a b r w = Inr (Some (int l), Some (int rt)))"
  using commit_delta_returns [of a b r w] commit_delta_failure [of r w a b]
    commit_delta_counts [of r w a b]
  by blast

lemma ex_repo_fields:
  "get_active_branch ex_repo (Some h) = Inr h"
  "get_active_branch ex_repo None = Inl ''HEAD is a detached symbolic reference''"
  "rev_list_count ex_repo w rg =
     (if rg = ''dev...origin/master'' then Inl ''unknown revision''
      else Inr (''1'' @ [CHR 0x09] @ ''2''))"
  "git_rebase ex_repo w new_base feature =
     (if feature = ''A'' then Some ''conflict'' else None, Some feature)"
  "git_rebase_abort ex_repo w = (Some ''No rebase in progress?'', w)"
  "git_push ex_repo w b = (Some ''rejected'', w)"
  "remote_fetch ex_repo w b = (Some ''no such remote'', w)"
  "git_reset_keep ex_repo w b = (None, w)"
  "branches ex_repo w = ex_branches"
  by (simp_all add: ex_repo_def ex_repo_of_def)

lemma ex_repo_checkout:
  "git_checkout ex_repo w None = (None, w)"
  "git_checkout ex_repo w (Some n) =
     (if n \<in> {''master'', ''A'', ''B'', ''C'', ''dev'', ''scratch''} then (None, Some n)
      else (Some ''pathspec did not match'', w))"
  by (auto simp add: ex_repo_def ex_repo_of_def ex_defs)

lemma str_small:
  "str_nat 1 = ''1''" "str_nat 2 = ''2''" "str_nat 0 = ''0''" "str_nat (Suc 0) = ''1''"
  by (simp_all add: str_nat.simps digit_char_def)

lemma ex_rev_list:
  "rg \<noteq> ''dev...origin/master'' \<Longrightarrow>
   rev_list_count ex_repo w rg = Inr (str_nat 1 @ [CHR 0x09] @ str_nat 2)"
  by (simp add: ex_repo_fields str_small)

lemma ex_delta:
  "commit_delta_by_branch_name ''A'' ''master'' ex_repo w = Inr (Some 1, Some 2)"
  "commit_delta_by_branch_name ''C'' ''master'' ex_repo w = Inr (Some 1, Some 2)"
  using commit_delta_counts [of ex_repo w "''A''" "''master''", OF ex_rev_list]
    commit_delta_counts [of ex_repo w "''C''" "''master''", OF ex_rev_list]
  by simp_all

lemma ex_line_A:
  "create_branch_str ''A'' (Some (PyRef ''master'')) (Suc 0) ''master'' (Some ex_repo) True w
   = Inr ''   |-> A  (-2, +1)''"
  by (simp add: create_branch_str_def ex_delta replace_colored_def str_int_def str_small
        ref_name_def lstrip_def)

lemma ex_line_C:
  "create_branch_str ''C'' (Some (PyRef ''master'')) (Suc 0) ''master'' (Some ex_repo) True w
   = Inr ''   |-> C  (-2, +1)''"
  by (simp add: create_branch_str_def ex_delta replace_colored_def str_int_def str_small
        ref_name_def lstrip_def)

theorem commit_delta_by_branch_name_total_witness:
  "rev_list_count ex_repo None (''dev'' @ ''...'' @ ''origin/master'') = Inl ''unknown revision''
   \<and> commit_delta_by_branch_name ''dev'' ''origin/master'' ex_repo None = Inr (None, None)
   \<and> rev_list_count ex_repo None (''A'' @ ''...'' @ ''master'')
       = Inr (str_nat 1 @ [CHR 0x09] @ str_nat 2)
   \<and> commit_delta_by_branch_name ''A'' ''master'' ex_repo None = Inr (Some 1, Some 2)"
proof -
  have f: "rev_list_count ex_repo None (''dev'' @ ''...'' @ ''origin/master'')
           = Inl ''unknown revision''"
    by (simp add: ex_repo_fields)
  have g: "rev_list_count ex_repo None (''A'' @ ''...'' @ ''master'')
           = Inr (str_nat 1 @ [CHR 0x09] @ str_nat 2)"
    by (rule ex_rev_list) simp
  have 1: "commit_delta_by_branch_name ''dev'' ''origin/master'' ex_repo None = Inr (None, None)"
    using commit_delta_by_branch_name_total [of "''dev''" "''origin/master''" ex_repo None] f
    by blast
  have 2: "commit_delta_by_branch_name ''A'' ''master'' ex_repo None
           = Inr (Some (int 1), Some (int 2))"
    using commit_delta_by_branch_name_total [of "''A''" "''master''" ex_repo None] g
    by blast
  from f g 1 2 show ?thesis by simp
qed

text \<open>
  For two branches without common ancestor the command succeeds, and the result is the
  pair of counts, not \<^verbatim>\<open>(None, None)\<close>.
\<close>

theorem commit_delta_no_common_ancestor_counterexample:
  "rev_list_count ex_orphan_repo ''master'' (''orphan'' @ ''...'' @ ''master'')
     = Inr (''2'' @ [CHR 0x09] @ ''1'')
   \<and> commit_delta_by_branch_name ''orphan'' ''master'' ex_orphan_repo ''master''
     = Inr (Some 2, Some 1)
   \<and> commit_delta_by_branch_name ''orphan'' ''master'' ex_orphan_repo ''master''
     \<noteq> Inr (None, None)"
proof -
  have o: "rev_list_count ex_orphan_repo ''master'' (''orphan'' @ ''...'' @ ''master'')
     = Inr (str_nat 2 @ [CHR 0x09] @ str_nat 1)"
    by (simp add: ex_orphan_repo_def str_small)
  from commit_delta_counts [OF o]
  have "commit_delta_by_branch_name ''orphan'' ''master'' ex_orphan_repo ''master''
     = Inr (Some 2, Some 1)"
    by simp
  with o show ?thesis by (simp add: str_small)
qed

subsection \<open>One edge of the cascade\<close>

text \<open>
  C1. In a cascade, when the rebase of a child onto its parent raises a
  \<^verbatim>\<open>GitCommandError\<close>, the iteration of the loop for this child does exactly this: it
  prints the line of the child, the announcement and the command, runs the rebase, prints
  the failure, runs \<^verbatim>\<open>git rebase --abort\<close> (whose own failure is printed and goes no
  further), and goes on with the next sibling in the state the abort leaves. No push is
  issued and \<^verbatim>\<open>print_tree\<close> is not called for the child: the equation holds for every
  DAG and at every recursion depth bound, also 0.
\<close>

theorem cascade_rebase_failure:
  assumes "tracking_branch branch = Some tb"
    and "create_branch_str (ref_name (name branch)) active_branch depth (ref_name tb) (Some r)
           (\<not> color) (world s) = Inr line"
    and "git_rebase r (world s) (ref_name tb) (ref_name (name branch)) = (Some msg, w1)"
    and "git_rebase_abort r w1 = (abort_result, w2)"
  shows "print_tree_loop n dag (branch # rest) active_branch depth (Some r) True color
           push_updates s =
         print_tree_loop n dag rest active_branch depth (Some r) True color push_updates
           \<lparr>world = w2,
            trace = trace s @
              [Stdout line,
               Stdout (''Rebasing '' @ ref_name (name branch) @ '' onto '' @ ref_name tb @ ''...''),
               Stdout (''git rebase -i --reapply-cherry-picks --fork-point '' @ ref_name tb
                       @ '' '' @ ref_name (name branch)),
               Git (Rebase (ref_name tb) (ref_name (name branch))) (Some msg),
               Stdout (colored ''Failed cascade due to error:'' ''red''),
               Stdout (colored msg ''yellow''),
               Stdout (colored
                  ''Aborting cascade for this branch. Please resolve conflicts on your own.''
                  ''red''),
               Stdout ''Continuing to next subtree...'',
               Git RebaseAbort abort_result]
              @ (case abort_result of
                   None \<Rightarrow> []
                 | Some m \<Rightarrow>
                     [Stdout (colored ''Skipping abort rebase since no rebase is in progress''
                                ''red''),
                      Stdout (colored m ''yellow'')])\<rparr>"
  using assms
  by (simp add: cascade_rebase_def rebase_onto_def run_git_def print_def abort_reabse_def
        Let_def split: option.splits)


theorem cascade_rebase_failure_witness:
  "tracking_branch ex_A = Some ''master''
   \<and> create_branch_str (ref_name (name ex_A)) (Some (PyRef ''master'')) 1 (ref_name ''master'')
        (Some ex_repo) (\<not> False) (world \<lparr>world = Some ''master'', trace = []\<rparr>)
       = Inr ''   |-> A  (-2, +1)''
   \<and> git_rebase ex_repo (world \<lparr>world = Some ''master'', trace = []\<rparr>) (ref_name ''master'')
        (ref_name (name ex_A)) = (Some ''conflict'', Some ''A'')
   \<and> git_rebase_abort ex_repo (Some ''A'') = (Some ''No rebase in progress?'', Some ''A'')
   \<and> print_tree_loop 0 Map.empty [ex_A] (Some (PyRef ''master'')) 1 (Some ex_repo) True False
        True \<lparr>world = Some ''master'', trace = []\<rparr>
       = Some (Inr True,
          \<lparr>world = Some ''A'',
           trace =
             [Stdout ''   |-> A  (-2, +1)'',
              Stdout ''Rebasing A onto master...'',
              Stdout ''git rebase -i --reapply-cherry-picks --fork-point master A'',
              Git (Rebase ''master'' ''A'') (Some ''conflict''),
              Stdout (colored ''Failed cascade due to error:'' ''red''),
              Stdout (colored ''conflict'' ''yellow''),
              Stdout (colored
                 ''Aborting cascade for this branch. Please resolve conflicts on your own.''
                 ''red''),
              Stdout ''Continuing to next subtree...'',
              Git RebaseAbort (Some ''No rebase in progress?''),
              Stdout (colored ''Skipping abort rebase since no rebase is in progress'' ''red''),
              Stdout (colored ''No rebase in progress?'' ''yellow'')]\<rparr>)"
proof -
  have t: "tracking_branch ex_A = Some ''master''" by (simp add: ex_A_def)
  have nm: "ref_name (name ex_A) = ''A''" by (simp add: ex_A_def ex_names)
  have l: "create_branch_str (ref_name (name ex_A)) (Some (PyRef ''master'')) 1
             (ref_name ''master'') (Some ex_repo) (\<not> False)
             (world \<lparr>world = Some ''master'', trace = []\<rparr>) = Inr ''   |-> A  (-2, +1)''"
    by (simp add: nm ex_names ex_line_A)
  have rb: "git_rebase ex_repo (world \<lparr>world = Some ''master'', trace = []\<rparr>)
              (ref_name ''master'') (ref_name (name ex_A)) = (Some ''conflict'', Some ''A'')"
    by (simp add: nm ex_names ex_repo_fields)
  have ab: "git_rebase_abort ex_repo (Some ''A'') = (Some ''No rebase in progress?'', Some ''A'')"
    by (simp add: ex_repo_fields)
  show ?thesis
    using t l rb ab
      cascade_rebase_failure [OF t l rb ab, of 0 Map.empty "[]" True]
    by (simp add: nm ex_names)
qed


text \<open>
  C5. With \<^verbatim>\<open>push_updates\<close>, when the rebase of a child succeeds and its force-push
  raises a \<^verbatim>\<open>GitCommandError\<close>, the failure is printed and nothing else happens to it:
  no abort and no other command is issued, the walk goes into the subtree of the child in
  the state the push left, and then on with the siblings.
\<close>

theorem push_failure_only_logged:
  assumes "tracking_branch branch = Some tb"
    and "create_branch_str (ref_name (name branch)) active_branch depth (ref_name tb) (Some r)
           (\<not> color) (world s) = Inr line"
    and "git_rebase r (world s) (ref_name tb) (ref_name (name branch)) = (None, w1)"
    and "git_push r w1 (ref_name (name branch)) = (Some msg, w2)"
  shows "print_tree_loop n dag (branch # rest) active_branch depth (Some r) True color True s =
         (case print_tree n dag (Some (ref_name (name branch))) (depth + 1) (Some r) True color
                 True
                 \<lparr>world = w2,
                  trace = trace s @
                    [Stdout line,
                     Stdout (''Rebasing '' @ ref_name (name branch) @ '' onto '' @ ref_name tb
                             @ ''...''),
                     Stdout (''git rebase -i --reapply-cherry-picks --fork-point '' @ ref_name tb
                             @ '' '' @ ref_name (name branch)),
                     Git (Rebase (ref_name tb) (ref_name (name branch))) None,
                     Stdout (''Rebase command: ''
                             @ ''git rebase -i --reapply-cherry-picks --fork-point ''
                             @ ref_name tb @ '' '' @ ref_name (name branch)),
                     Stdout (''git push --force origin '' @ ref_name (name branch)
                             @ '' --no-verify''),
                     Git (Push (ref_name (name branch))) (Some msg),
                     Stdout (colored ''Failed to push branch due to error:'' ''red''),
                     Stdout (colored msg ''yellow''),
                     Stdout (colored
                        ''Aborting cascade for this branch. Please resolve conflicts on your own.''
                        ''red'')]\<rparr> of
            None \<Rightarrow> None
          | Some (Inl e, s2) \<Rightarrow> Some (Inl e, s2)
          | Some (Inr leaf_node_reached, s2) \<Rightarrow>
              if \<not> leaf_node_reached then Some (Inr False, s2)
              else print_tree_loop n dag rest active_branch depth (Some r) True color True s2)"
  using assms
  by (simp add: cascade_rebase_def rebase_onto_def run_git_def print_def
        force_push_no_verify_def Let_def)

theorem push_failure_only_logged_witness:
  "tracking_branch ex_C = Some ''master''
   \<and> create_branch_str (ref_name (name ex_C)) (Some (PyRef ''master'')) 1 (ref_name ''master'')
        (Some ex_repo) (\<not> False) (world \<lparr>world = Some ''master'', trace = []\<rparr>)
       = Inr ''   |-> C  (-2, +1)''
   \<and> git_rebase ex_repo (world \<lparr>world = Some ''master'', trace = []\<rparr>) (ref_name ''master'')
        (ref_name (name ex_C)) = (None, Some ''C'')
   \<and> git_push ex_repo (Some ''C'') (ref_name (name ex_C)) = (Some ''rejected'', Some ''C'')
   \<and> print_tree_loop 1 (fst (build_git_dag ex_branches)) [ex_C] (Some (PyRef ''master'')) 1
        (Some ex_repo) True False True \<lparr>world = Some ''master'', trace = []\<rparr>
       = Some (Inr True,
          \<lparr>world = Some ''C'',
           trace =
             [Stdout ''   |-> C  (-2, +1)'',
              Stdout ''Rebasing C onto master...'',
              Stdout ''git rebase -i --reapply-cherry-picks --fork-point master C'',
              Git (Rebase ''master'' ''C'') None,
              Stdout ''Rebase command: git rebase -i --reapply-cherry-picks --fork-point master C'',
              Stdout ''git push --force origin C --no-verify'',
              Git (Push ''C'') (Some ''rejected''),
              Stdout (colored ''Failed to push branch due to error:'' ''red''),
              Stdout (colored ''rejected'' ''yellow''),
              Stdout (colored
                 ''Aborting cascade for this branch. Please resolve conflicts on your own.''
                 ''red'')]\<rparr>)"
proof -
  have t: "tracking_branch ex_C = Some ''master''" by (simp add: ex_C_def)
  have nm: "ref_name (name ex_C) = ''C''" by (simp add: ex_C_def ex_names)
  have l: "create_branch_str (ref_name (name ex_C)) (Some (PyRef ''master'')) 1
             (ref_name ''master'') (Some ex_repo) (\<not> False)
             (world \<lparr>world = Some ''master'', trace = []\<rparr>) = Inr ''   |-> C  (-2, +1)''"
    by (simp add: nm ex_names ex_line_C)
  have rb: "git_rebase ex_repo (world \<lparr>world = Some ''master'', trace = []\<rparr>)
              (ref_name ''master'') (ref_name (name ex_C)) = (None, Some ''C'')"
    by (simp add: nm ex_names ex_repo_fields)
  have pu: "git_push ex_repo (Some ''C'') (ref_name (name ex_C)) = (Some ''rejected'', Some ''C'')"
    by (simp add: ex_repo_fields)
  have fin: "print_tree_loop 1 (fst (build_git_dag ex_branches)) [ex_C] (Some (PyRef ''master'')) 1
        (Some ex_repo) True False True \<lparr>world = Some ''master'', trace = []\<rparr>
       = Some (Inr True,
          \<lparr>world = Some ''C'',
           trace =
             [Stdout ''   |-> C  (-2, +1)'',
              Stdout ''Rebasing C onto master...'',
              Stdout ''git rebase -i --reapply-cherry-picks --fork-point master C'',
              Git (Rebase ''master'' ''C'') None,
              Stdout ''Rebase command: git rebase -i --reapply-cherry-picks --fork-point master C'',
              Stdout ''git push --force origin C --no-verify'',
              Git (Push ''C'') (Some ''rejected''),
              Stdout (colored ''Failed to push branch due to error:'' ''red''),
              Stdout (colored ''rejected'' ''yellow''),
              Stdout (colored
                 ''Aborting cascade for this branch. Please resolve conflicts on your own.''
                 ''red'')]\<rparr>)"
    by (subst push_failure_only_logged [OF t l rb pu])
       (simp add: nm ex_names ex_dag active_branch_from_repo_def ex_repo_fields)
  from t l rb pu fin show ?thesis by blast
qed

subsection \<open>Unfolding the walk\<close>

lemma active_branch_quiet:
  "active_branch_from_repo repo False s = (fst (active_branch_from_repo repo False s), s)"
  by (simp add: active_branch_from_repo_def split: option.splits sum.splits)

lemma print_tree_Suc:
  "print_tree (Suc n) dag (Some c) depth repo cascade color push_updates s =
     (case dag c of
        None \<Rightarrow> Some (Inr True, s)
      | Some children \<Rightarrow>
          if depth = 0 then
            (case create_branch_str c (fst (active_branch_from_repo repo False s)) 0 [] None
                    (\<not> color) (world s) of
               Inl e \<Rightarrow> Some (Inl e, s)
             | Inr line \<Rightarrow>
                 print_tree n dag (Some c) 1 repo cascade color push_updates (print line s))
          else
            print_tree_loop n dag children (fst (active_branch_from_repo repo False s)) depth
              repo cascade color push_updates s)"
  by (subst print_tree.simps, subst active_branch_quiet) (auto split: option.splits sum.splits)

lemma print_tree_loop_Cons:
  "print_tree_loop n dag (branch # rest) active_branch depth repo cascade color push_updates s =
     (case enter_child branch active_branch depth repo cascade color push_updates s of
        Raised e s1 \<Rightarrow> Some (Inl e, s1)
      | Continue s1 \<Rightarrow>
          print_tree_loop n dag rest active_branch depth repo cascade color push_updates s1
      | Descend s1 \<Rightarrow>
          (case print_tree n dag (Some (ref_name (name branch))) (depth + 1) repo cascade color
                  push_updates s1 of
             None \<Rightarrow> None
           | Some (Inl e, s2) \<Rightarrow> Some (Inl e, s2)
           | Some (Inr leaf_node_reached, s2) \<Rightarrow>
               if \<not> leaf_node_reached then Some (Inr False, s2)
               else
                 print_tree_loop n dag rest active_branch depth repo cascade color push_updates
                   s2))"
  by (simp add: enter_child_def Let_def split: sum.splits)

lemmas walk_simps_del = print_tree.simps(2) print_tree_loop.simps(2)

subsection \<open>The walk returns \<^verbatim>\<open>True\<close> or raises\<close>

lemma loop_returns_true:
  assumes "\<And>cur depth s b s'.
     print_tree n dag cur depth repo cascade color push_updates s = Some (Inr b, s') \<Longrightarrow> b"
  shows "print_tree_loop n dag cs active depth repo cascade color push_updates s
         = Some (Inr b, s') \<Longrightarrow> b"
proof (induction cs arbitrary: s)
  case Nil
  then show ?case by simp
next
  case (Cons c cs)
  show ?case
  proof (cases "enter_child c active depth repo cascade color push_updates s")
    case (Raised e s1)
    with Cons.prems show ?thesis by (simp add: print_tree_loop_Cons del: walk_simps_del)
  next
    case (Continue s1)
    with Cons show ?thesis by (simp add: print_tree_loop_Cons del: walk_simps_del)
  next
    case (Descend s1)
    with Cons.prems Cons.IH assms show ?thesis
      by (auto simp add: print_tree_loop_Cons simp del: walk_simps_del
            split: option.splits sum.splits if_splits)
  qed
qed

lemma tree_returns_true:
  "print_tree n dag cur depth repo cascade color push_updates s = Some (Inr b, s') \<Longrightarrow> b"
proof (induction n arbitrary: cur depth s b s')
  case 0
  then show ?case by simp
next
  case (Suc n)
  show ?case
  proof (cases cur)
    case None
    with Suc.prems show ?thesis
      by (subst (asm) print_tree.simps, subst (asm) active_branch_quiet) simp
  next
    case (Some c)
    with Suc.prems Suc.IH loop_returns_true [of n dag repo cascade color push_updates, OF Suc.IH]
    show ?thesis
      by (auto simp add: print_tree_Suc simp del: walk_simps_del
            split: option.splits sum.splits if_splits)
  qed
qed

subsection \<open>The walk returns on a DAG without cycle\<close>

lemma create_branch_str_ok:
  "\<exists>line. create_branch_str bname (Some a) depth parent repo no_color w = Inr line"
proof -
  have b: "\<exists>nm. branch_name (Some a) = Inr nm" by (cases a) simp_all
  show ?thesis
  proof (cases repo)
    case None
    with b show ?thesis by (auto simp: create_branch_str_def Let_def)
  next
    case (Some r)
    obtain p where "commit_delta_by_branch_name bname parent r w = Inr p"
      using commit_delta_returns [of bname parent r w] by blast
    with b Some show ?thesis
      by (cases p) (auto simp: create_branch_str_def Let_def)
  qed
qed

lemma cascade_rebase_not_raised:
  "cascade_rebase (Some r) parent bname push_updates s \<noteq> Raised e s1"
  by (simp add: cascade_rebase_def rebase_onto_def run_git_def Let_def
        split: prod.splits option.splits)

lemma enter_child_not_raised:
  "tracking_branch b \<noteq> None \<Longrightarrow>
   enter_child b (Some a) depth (Some r) cascade color push_updates s \<noteq> Raised e s1"
proof -
  assume "tracking_branch b \<noteq> None"
  then obtain tb where tb: "tracking_branch b = Some tb" by auto
  obtain line where "create_branch_str (ref_name (name b)) (Some a) depth (ref_name tb) (Some r)
      (\<not> color) (world s) = Inr line"
    using create_branch_str_ok [of "ref_name (name b)" a depth "ref_name tb" "Some r"
        "\<not> color" "world s"]
    by blast
  with tb show ?thesis
    by (simp add: enter_child_def cascade_rebase_not_raised)
qed

lemma active_attached:
  "keeps_attached r I \<Longrightarrow> I (world s) \<Longrightarrow>
   \<exists>h. fst (active_branch_from_repo (Some r) False s) = Some (PyRef h)"
proof -
  assume "keeps_attached r I" "I (world s)"
  then obtain h where "get_active_branch r (world s) = Inr h"
    unfolding keeps_attached_def by blast
  then show ?thesis by (simp add: active_branch_from_repo_def)
qed

lemma world_print [simp]: "world (print line s) = world s"
  by (simp add: print_def)

lemma run_git_keeps:
  "run_git c f s = (res, s1) \<Longrightarrow> I (snd (f (world s))) \<Longrightarrow> I (world s1)"
  by (auto simp: run_git_def split: prod.splits)

lemma abort_keeps:
  assumes "keeps_attached r I" "I (world s)"
  shows "I (world (abort_reabse r s))"
proof -
  obtain res s1 where r: "run_git RebaseAbort (git_rebase_abort r) s = (res, s1)"
    by (cases "run_git RebaseAbort (git_rebase_abort r) s") auto
  have "I (snd (git_rebase_abort r (world s)))"
    using assms unfolding keeps_attached_def by blast
  from run_git_keeps [OF r, of I, OF this] r show ?thesis
    by (cases res) (simp_all add: abort_reabse_def)
qed

lemma push_keeps:
  assumes "keeps_attached r I" "I (world s)"
  shows "I (world (force_push_no_verify r b s))"
proof -
  let ?s = "print (''git push --force origin '' @ b @ '' --no-verify'') s"
  obtain res s1 where r: "run_git (Push b) (\<lambda>w. git_push r w b) ?s = (res, s1)"
    by (cases "run_git (Push b) (\<lambda>w. git_push r w b) ?s") auto
  have "I (snd (git_push r (world ?s) b))"
    using assms unfolding keeps_attached_def by simp
  from run_git_keeps [OF r, of I, OF this] r show ?thesis
    by (cases res) (simp_all add: force_push_no_verify_def)
qed

lemma rebase_onto_keeps:
  assumes "keeps_attached r I" "I (world s)" "rebase_onto r new_base feature s = (res, s1)"
  shows "I (world s1)"
proof -
  let ?s = "print (''git rebase -i --reapply-cherry-picks --fork-point '' @ new_base @ '' ''
            @ feature) s"
  obtain res' s' where r: "run_git (Rebase new_base feature)
      (\<lambda>w. git_rebase r w new_base feature) ?s = (res', s')"
    by (cases "run_git (Rebase new_base feature) (\<lambda>w. git_rebase r w new_base feature) ?s")
       auto
  have "I (snd (git_rebase r (world ?s) new_base feature))"
    using assms(1,2) unfolding keeps_attached_def by simp
  from run_git_keeps [OF r, of I, OF this] r assms(3) show ?thesis
    by (cases res') (auto simp: rebase_onto_def Let_def)
qed

lemma cascade_rebase_keeps:
  assumes ka: "keeps_attached r I" and i: "I (world s)"
    and c: "cascade_rebase (Some r) parent bname push_updates s = x"
  shows "(\<exists>s1. x = Continue s1 \<and> I (world s1)) \<or> (\<exists>s1. x = Descend s1 \<and> I (world s1))"
proof -
  let ?s = "print (''Rebasing '' @ bname @ '' onto '' @ parent @ ''...'') s"
  obtain res s1 where r: "rebase_onto r parent bname ?s = (res, s1)"
    by (cases "rebase_onto r parent bname ?s") auto
  have i1: "I (world s1)"
    by (rule rebase_onto_keeps [OF ka _ r]) (simp add: i)
  show ?thesis
  proof (cases res)
    case (Inr cmd)
    with r c i1 push_keeps [OF ka, of "print (''Rebase command: '' @ cmd) s1" bname]
    show ?thesis
      by (auto simp: cascade_rebase_def Let_def)
  next
    case (Inl e)
    from r have "\<exists>msg. e = GitCommandError msg" if "res = Inl e"
      using that by (auto simp: rebase_onto_def Let_def split: prod.splits option.splits)
    with Inl obtain msg where e: "e = GitCommandError msg" by blast
    have "I (world (abort_reabse r
            (print ''Continuing to next subtree...''
               (print (colored
                  ''Aborting cascade for this branch. Please resolve conflicts on your own.''
                  ''red'')
                  (print (colored msg ''yellow'')
                     (print (colored ''Failed cascade due to error:'' ''red'') s1))))))"
      by (rule abort_keeps [OF ka]) (simp add: i1)
    with Inl e r c show ?thesis
      by (auto simp: cascade_rebase_def)
  qed
qed

lemma enter_child_keeps:
  assumes ka: "keeps_attached r I" and i: "I (world s)" and tb: "tracking_branch b \<noteq> None"
  shows "(\<exists>s1. enter_child b (Some a) depth (Some r) cascade color push_updates s = Continue s1
               \<and> I (world s1))
       \<or> (\<exists>s1. enter_child b (Some a) depth (Some r) cascade color push_updates s = Descend s1
               \<and> I (world s1))"
proof -
  from tb obtain t where t: "tracking_branch b = Some t" by auto
  obtain line where l: "create_branch_str (ref_name (name b)) (Some a) depth (ref_name t)
      (Some r) (\<not> color) (world s) = Inr line"
    using create_branch_str_ok [of "ref_name (name b)" a depth "ref_name t" "Some r"
        "\<not> color" "world s"]
    by blast
  show ?thesis
  proof (cases cascade)
    case False
    with t l i show ?thesis by (simp add: enter_child_def)
  next
    case True
    have "I (world (print line s))" using i by simp
    from cascade_rebase_keeps [OF ka this refl, of "ref_name t" "ref_name (name b)" push_updates]
    show ?thesis using True t l by (simp add: enter_child_def)
  qed
qed

lemma loop_returns:
  assumes ka: "keeps_attached r I"
    and tr: "\<forall>b \<in> set cs. tracking_branch b \<noteq> None"
    and sub: "\<forall>b \<in> set cs. \<exists>N. \<forall>n \<ge> N. \<forall>depth > 0. \<forall>s. I (world s) \<longrightarrow> (\<exists>s'.
        print_tree n dag (Some (ref_name (name b))) depth (Some r) cascade color push_updates s
        = Some (Inr True, s') \<and> I (world s'))"
  shows "\<exists>N. \<forall>n \<ge> N. \<forall>depth a s. I (world s) \<longrightarrow> (\<exists>s'.
        print_tree_loop n dag cs (Some a) depth (Some r) cascade color push_updates s
        = Some (Inr True, s') \<and> I (world s'))"
  using tr sub
proof (induction cs)
  case Nil
  then show ?case by simp
next
  case (Cons b cs)
  have "b \<in> set (b # cs)" by simp
  with Cons.prems(2) have "\<exists>N. \<forall>n \<ge> N. \<forall>depth > 0. \<forall>s. I (world s) \<longrightarrow> (\<exists>s'.
        print_tree n dag (Some (ref_name (name b))) depth (Some r) cascade color push_updates s
        = Some (Inr True, s') \<and> I (world s'))"
    by (rule bspec)
  then obtain N1 where "\<forall>n \<ge> N1. \<forall>depth > 0. \<forall>s. I (world s) \<longrightarrow> (\<exists>s'.
        print_tree n dag (Some (ref_name (name b))) depth (Some r) cascade color push_updates s
        = Some (Inr True, s') \<and> I (world s'))" ..
  then have N1: "\<exists>s'. print_tree n dag (Some (ref_name (name b))) depth (Some r) cascade color
        push_updates s = Some (Inr True, s') \<and> I (world s')"
    if "n \<ge> N1" "depth > 0" "I (world s)" for n depth s
    using that by simp
  have "\<forall>b \<in> set cs. tracking_branch b \<noteq> None" using Cons.prems(1) by simp
  moreover have "\<forall>b \<in> set cs. \<exists>N. \<forall>n \<ge> N. \<forall>depth > 0. \<forall>s. I (world s) \<longrightarrow> (\<exists>s'.
        print_tree n dag (Some (ref_name (name b))) depth (Some r) cascade color push_updates s
        = Some (Inr True, s') \<and> I (world s'))"
    using Cons.prems(2) by simp
  ultimately have "\<exists>N. \<forall>n \<ge> N. \<forall>depth a s. I (world s) \<longrightarrow> (\<exists>s'.
        print_tree_loop n dag cs (Some a) depth (Some r) cascade color push_updates s
        = Some (Inr True, s') \<and> I (world s'))"
    by (rule Cons.IH)
  then obtain N2 where "\<forall>n \<ge> N2. \<forall>depth a s. I (world s) \<longrightarrow> (\<exists>s'.
        print_tree_loop n dag cs (Some a) depth (Some r) cascade color push_updates s
        = Some (Inr True, s') \<and> I (world s'))" ..
  then have N2: "\<exists>s'. print_tree_loop n dag cs (Some a) depth (Some r) cascade color
        push_updates s = Some (Inr True, s') \<and> I (world s')"
    if "n \<ge> N2" "I (world s)" for n depth a s
    using that by simp
  have tb: "tracking_branch b \<noteq> None" using Cons.prems(1) by simp
  have step: "\<exists>s'. print_tree_loop n dag (b # cs) (Some a) depth (Some r) cascade color
        push_updates s = Some (Inr True, s') \<and> I (world s')"
    if n: "n \<ge> max N1 N2" and i: "I (world s)" for n depth a s
  proof -
    have n1: "n \<ge> N1" and n2: "n \<ge> N2" using n by simp_all
    from enter_child_keeps [OF ka i tb, of a depth cascade color push_updates]
    consider s1 where "enter_child b (Some a) depth (Some r) cascade color push_updates s
          = Continue s1" "I (world s1)"
      | s1 where "enter_child b (Some a) depth (Some r) cascade color push_updates s
          = Descend s1" "I (world s1)"
      by blast
    then show ?thesis
    proof cases
      case 1
      from N2 [OF n2 1(2)] obtain s' where
        "print_tree_loop n dag cs (Some a) depth (Some r) cascade color push_updates s1
         = Some (Inr True, s')" "I (world s')"
        by blast
      with 1 show ?thesis by (simp add: print_tree_loop_Cons del: walk_simps_del)
    next
      case 2
      have "depth + 1 > 0" by simp
      from N1 [OF n1 this 2(2)] obtain s2 where
        s2: "print_tree n dag (Some (ref_name (name b))) (depth + 1) (Some r) cascade color
             push_updates s1 = Some (Inr True, s2)" "I (world s2)"
        by blast
      from N2 [OF n2 s2(2)] obtain s3 where
        "print_tree_loop n dag cs (Some a) depth (Some r) cascade color push_updates s2
         = Some (Inr True, s3)" "I (world s3)"
        by blast
      with 2 s2 show ?thesis by (simp add: print_tree_loop_Cons del: walk_simps_del)
    qed
  qed
  show ?case
    by (rule exI [of _ "max N1 N2"], intro allI impI) (rule step, assumption+)
qed

lemma tree_returns_below:
  assumes wf: "wf (dag_edges dag)" and tr: "tracked_children dag" and ka: "keeps_attached r I"
  shows "\<exists>N. \<forall>n \<ge> N. \<forall>depth > 0. \<forall>s. I (world s) \<longrightarrow> (\<exists>s'.
        print_tree n dag (Some c) depth (Some r) cascade color push_updates s
        = Some (Inr True, s') \<and> I (world s'))"
  using wf
proof (induction c rule: wf_induct_rule)
  case (less c)
  show ?case
  proof (cases "dag c")
    case None
    have "\<exists>s'. print_tree n dag (Some c) depth (Some r) cascade color push_updates s
        = Some (Inr True, s') \<and> I (world s')" if "n \<ge> 1" "I (world s)" for n depth s
    proof -
      from that obtain m where "n = Suc m" by (cases n) auto
      with None that show ?thesis by (simp add: print_tree_Suc del: walk_simps_del)
    qed
    then have "\<forall>n \<ge> 1. \<forall>depth > 0. \<forall>s. I (world s) \<longrightarrow> (\<exists>s'.
        print_tree n dag (Some c) depth (Some r) cascade color push_updates s
        = Some (Inr True, s') \<and> I (world s'))"
      by simp
    then show ?thesis ..
  next
    case (Some cs)
    have t: "\<forall>b \<in> set cs. tracking_branch b \<noteq> None"
      using tr Some unfolding tracked_children_def by blast
    have e: "(ref_name (name b), c) \<in> dag_edges dag" if "b \<in> set cs" for b
      using that Some by (auto simp: dag_edges_def child_names_def entries_def)
    have "\<forall>b \<in> set cs. \<exists>N. \<forall>n \<ge> N. \<forall>depth > 0. \<forall>s. I (world s) \<longrightarrow> (\<exists>s'.
        print_tree n dag (Some (ref_name (name b))) depth (Some r) cascade color push_updates s
        = Some (Inr True, s') \<and> I (world s'))"
    proof
      fix b assume "b \<in> set cs"
      then have "(ref_name (name b), c) \<in> dag_edges dag" by (rule e)
      then show "\<exists>N. \<forall>n \<ge> N. \<forall>depth > 0. \<forall>s. I (world s) \<longrightarrow> (\<exists>s'.
        print_tree n dag (Some (ref_name (name b))) depth (Some r) cascade color push_updates s
        = Some (Inr True, s') \<and> I (world s'))"
        by (rule less)
    qed
    from loop_returns [OF ka t this] obtain N where "\<forall>n \<ge> N. \<forall>depth a s. I (world s) \<longrightarrow>
        (\<exists>s'. print_tree_loop n dag cs (Some a) depth (Some r) cascade color push_updates s
        = Some (Inr True, s') \<and> I (world s'))" ..
    then have N: "\<exists>s'. print_tree_loop n dag cs (Some a) depth (Some r) cascade color
        push_updates s = Some (Inr True, s') \<and> I (world s')"
      if "n \<ge> N" "I (world s)" for n depth a s
      using that by simp
    have step: "\<exists>s'. print_tree n dag (Some c) depth (Some r) cascade color push_updates s
        = Some (Inr True, s') \<and> I (world s')"
      if n: "n \<ge> Suc N" and d: "depth > 0" and i: "I (world s)" for n depth s
    proof -
      from n obtain m where m: "n = Suc m" "m \<ge> N" by (cases n) auto
      from active_attached [OF ka i] obtain h where
        h: "fst (active_branch_from_repo (Some r) False s) = Some (PyRef h)" by blast
      from N [OF m(2) i] obtain s' where
        "print_tree_loop m dag cs (Some (PyRef h)) depth (Some r) cascade color push_updates s
         = Some (Inr True, s')" "I (world s')"
        by blast
      with m d Some h show ?thesis by (simp add: print_tree_Suc del: walk_simps_del)
    qed
    show ?thesis
      by (rule exI [of _ "Suc N"], intro allI impI) (rule step, assumption+)
  qed
qed

lemma tree_returns:
  assumes wf: "wf (dag_edges dag)" and tr: "tracked_children dag" and ka: "keeps_attached r I"
  shows "\<exists>N. \<forall>n \<ge> N. \<forall>depth s. I (world s) \<longrightarrow> (\<exists>s'.
        print_tree n dag cur depth (Some r) cascade color push_updates s = Some (Inr True, s')
        \<and> I (world s'))"
proof (cases cur)
  case None
  have "\<exists>s'. print_tree n dag cur depth (Some r) cascade color push_updates s
        = Some (Inr True, s') \<and> I (world s')" if "n \<ge> 1" "I (world s)" for n depth s
  proof -
    from that obtain m where "n = Suc m" by (cases n) auto
    with that None show ?thesis
      by (simp add: active_branch_from_repo_def split: sum.splits)
  qed
  then have "\<forall>n \<ge> 1. \<forall>depth s. I (world s) \<longrightarrow> (\<exists>s'.
        print_tree n dag cur depth (Some r) cascade color push_updates s = Some (Inr True, s')
        \<and> I (world s'))"
    by simp
  then show ?thesis ..
next
  case (Some c)
  from tree_returns_below [OF wf tr ka, of c cascade color push_updates]
  obtain N where "\<forall>n \<ge> N. \<forall>depth > 0. \<forall>s.
        I (world s) \<longrightarrow> (\<exists>s'.
        print_tree n dag (Some c) depth (Some r) cascade color push_updates s
        = Some (Inr True, s') \<and> I (world s'))" ..
  then have N: "\<exists>s'. print_tree n dag (Some c) depth (Some r) cascade color push_updates s
        = Some (Inr True, s') \<and> I (world s')"
    if "n \<ge> N" "depth > 0" "I (world s)" for n depth s
    using that by simp
  have step: "\<exists>s'. print_tree n dag (Some c) depth (Some r) cascade color push_updates s
        = Some (Inr True, s') \<and> I (world s')"
    if n: "n \<ge> Suc N" and i: "I (world s)" for n depth s
  proof (cases "depth = 0")
    case False
    then have "depth > 0" by simp
    moreover have "n \<ge> N" using n by simp
    ultimately show ?thesis using i N by blast
  next
    case True
    from n obtain m where m: "n = Suc m" "m \<ge> N" by (cases n) auto
    from active_attached [OF ka i] obtain h where
      h: "fst (active_branch_from_repo (Some r) False s) = Some (PyRef h)" by blast
    obtain line where l: "create_branch_str c (Some (PyRef h)) 0 [] None (\<not> color) (world s)
        = Inr line"
      using create_branch_str_ok [of c "PyRef h" 0 "[]" None "\<not> color" "world s"] by blast
    have "I (world (print line s))" using i by simp
    from N [OF m(2) _ this, of 1] obtain s' where
      "print_tree m dag (Some c) 1 (Some r) cascade color push_updates
        (print line s) = Some (Inr True, s')" "I (world s')"
      by auto
    with True m h l i show ?thesis
      by (cases "dag c") (simp_all add: print_tree_Suc del: walk_simps_del)
  qed
  show ?thesis
    unfolding Some
    by (rule exI [of _ "Suc N"], intro allI impI) (rule step, assumption+)
qed

lemma dag_returns:
  assumes wf: "wf (dag_edges dag)" and tr: "tracked_children dag" and ka: "keeps_attached r I"
  shows "\<exists>N. \<forall>n \<ge> N. \<forall>s. I (world s) \<longrightarrow> (\<exists>s'.
        print_dag n dag roots (Some r) cascade color push_updates s = Some (Inr (), s')
        \<and> I (world s'))"
proof (induction roots)
  case Nil
  then show ?case by simp
next
  case (Cons root roots)
  from tree_returns [OF wf tr ka, of root cascade color push_updates]
  obtain N1 where "\<forall>n \<ge> N1. \<forall>depth s. I (world s) \<longrightarrow> (\<exists>s'.
        print_tree n dag root depth (Some r) cascade color push_updates s = Some (Inr True, s')
        \<and> I (world s'))" ..
  then have N1: "\<exists>s'. print_tree n dag root depth (Some r) cascade color push_updates s
        = Some (Inr True, s') \<and> I (world s')"
    if "n \<ge> N1" "I (world s)" for n depth s
    using that by simp
  from Cons obtain N2 where "\<forall>n \<ge> N2. \<forall>s. I (world s) \<longrightarrow> (\<exists>s'.
        print_dag n dag roots (Some r) cascade color push_updates s = Some (Inr (), s')
        \<and> I (world s'))" ..
  then have N2: "\<exists>s'. print_dag n dag roots (Some r) cascade color push_updates s
        = Some (Inr (), s') \<and> I (world s')"
    if "n \<ge> N2" "I (world s)" for n s
    using that by simp
  have step: "\<exists>s'. print_dag n dag (root # roots) (Some r) cascade color push_updates s
        = Some (Inr (), s') \<and> I (world s')"
    if n: "n \<ge> max N1 N2" and i: "I (world s)" for n s
  proof -
    have n1: "n \<ge> N1" and n2: "n \<ge> N2" using n by simp_all
    from N1 [OF n1 i, of 0] obtain s1 where
      s1: "print_tree n dag root 0 (Some r) cascade color push_updates s = Some (Inr True, s1)"
        "I (world s1)"
      by blast
    from N2 [OF n2 s1(2)] obtain s2 where
      "print_dag n dag roots (Some r) cascade color push_updates s1 = Some (Inr (), s2)"
      "I (world s2)"
      by blast
    with s1 show ?thesis by simp
  qed
  show ?case
    by (rule exI [of _ "max N1 N2"], intro allI impI) (rule step, assumption+)
qed

lemma finite_dag_edges: "finite (dom dag) \<Longrightarrow> finite (dag_edges dag)"
proof -
  assume f: "finite (dom dag)"
  have "dag_edges dag \<subseteq> (\<Union>p \<in> dom dag. child_names dag p) \<times> dom dag"
  proof
    fix e assume "e \<in> dag_edges dag"
    then obtain c p where e: "e = (c, p)" "c \<in> child_names dag p"
      by (auto simp: dag_edges_def)
    then have "p \<in> dom dag"
      by (cases "dag p") (auto simp: child_names_def entries_def)
    with e show "e \<in> (\<Union>p \<in> dom dag. child_names dag p) \<times> dom dag" by blast
  qed
  moreover have "finite ((\<Union>p \<in> dom dag. child_names dag p) \<times> dom dag)"
    using f by (auto simp: child_names_def)
  ultimately show ?thesis by (rule finite_subset)
qed

lemma wf_dag_edges: "finite (dom dag) \<Longrightarrow> acyclic (dag_edges dag) \<Longrightarrow> wf (dag_edges dag)"
  by (simp add: finite_acyclic_wf finite_dag_edges)

lemma ranked_acyclic:
  assumes "\<And>c p. c \<in> child_names dag p \<Longrightarrow> rk c < (rk p :: nat)"
  shows "acyclic (dag_edges dag)"
proof -
  have "dag_edges dag \<subseteq> measure rk"
    using assms by (auto simp: dag_edges_def)
  then have "wf (dag_edges dag)" by (rule wf_subset [OF wf_measure])
  then show ?thesis by (rule wf_acyclic)
qed

lemma ex_entries:
  "entries (fst (build_git_dag ex_branches)) p =
     (if p = ''origin/master'' then [ex_master, ex_dev]
      else if p = ''master'' then [ex_A, ex_C]
      else if p = ''A'' then [ex_B] else [])"
  by (simp add: entries_def ex_dag)

lemma ex_child_names:
  "child_names (fst (build_git_dag ex_branches)) p =
     (if p = ''origin/master'' then {''master'', ''dev''}
      else if p = ''master'' then {''A'', ''C''}
      else if p = ''A'' then {''B''} else {})"
  by (simp add: child_names_def ex_entries ex_master_def ex_dev_def ex_A_def ex_B_def ex_C_def
        ex_names)

lemma ex_dag_acyclic: "acyclic (dag_edges (fst (build_git_dag ex_branches)))"
  by (rule ranked_acyclic [of _ ex_rank])
     (auto simp: ex_child_names ex_rank_def split: if_splits)

lemma ex_dag_finite: "finite (dom (fst (build_git_dag ex_branches)))"
  by (simp add: ex_dag)

lemma built_tracked: "tracked_children (fst (build_git_dag bs))"
  unfolding tracked_children_def
proof (intro allI impI ballI)
  fix p cs b
  assume "fst (build_git_dag bs) p = Some cs" "b \<in> set cs"
  then have "tracks p b" using build_git_dag_children by fastforce
  then show "tracking_branch b \<noteq> None" by (auto simp: tracks_def)
qed

lemma ex_repo_keeps_attached: "keeps_attached ex_repo (\<lambda>w. w \<noteq> None)"
  unfolding keeps_attached_def
  by (auto simp: ex_repo_def ex_repo_of_def split: option.splits)

lemma ex_repo_on_keeps_attached: "keeps_attached ex_repo_on (\<lambda>w. True)"
  unfolding keeps_attached_def
  by (simp add: ex_repo_on_def ex_repo_of_def)

text \<open>
  C7. A finite DAG without cycle and a start branch from which \<^verbatim>\<open>print_tree\<close> does not
  return \<^verbatim>\<open>True\<close>: on a detached head the active branch is \<^verbatim>\<open>None\<close>, and the walk from
  \<open>master\<close> raises the \<^verbatim>\<open>AssertionError\<close> of \<^verbatim>\<open>branch_name\<close> in \<^verbatim>\<open>create_branch_str\<close>
  before it prints a line. (Where the walk returns a value, the value is \<^verbatim>\<open>True\<close>: lemma
  \<open>tree_returns_true\<close>.)
\<close>

theorem print_tree_detached_raises:
  "finite (dom (fst (build_git_dag ex_branches)))
   \<and> acyclic (dag_edges (fst (build_git_dag ex_branches)))
   \<and> print_tree 2 (fst (build_git_dag ex_branches)) (Some ''master'') 0 (Some ex_repo) False
       False False \<lparr>world = None, trace = []\<rparr>
     = Some (Inl (AssertionError ''Must have a valid branch to get the name!''),
             \<lparr>world = None, trace = []\<rparr>)"
proof -
  have "print_tree 2 (fst (build_git_dag ex_branches)) (Some ''master'') 0 (Some ex_repo) False
       False False \<lparr>world = None, trace = []\<rparr>
     = Some (Inl (AssertionError ''Must have a valid branch to get the name!''),
             \<lparr>world = None, trace = []\<rparr>)"
    by (simp add: numeral_2_eq_2 ex_dag active_branch_from_repo_def ex_repo_fields
          create_branch_str_def)
  with ex_dag_finite ex_dag_acyclic show ?thesis by blast
qed

subsection \<open>The walk does not read the trace\<close>

lemma shift_simps [simp]:
  "world (shift tr s) = world s"
  "trace (shift tr s) = tr @ trace s"
  "shift tr (print line s) = print line (shift tr s)"
  by (simp_all add: shift_def print_def)

lemma shift_Nil [simp]: "shift [] s = s"
  by (simp add: shift_def)

lemma shift_shift [simp]: "shift tr (shift tr' s) = shift (tr @ tr') s"
  by (simp add: shift_def)

lemma run_git_shift: "run_git c f (shift tr s) = apsnd (shift tr) (run_git c f s)"
  by (simp add: run_git_def shift_def split: prod.splits)

lemma abort_reabse_shift: "abort_reabse r (shift tr s) = shift tr (abort_reabse r s)"
  by (simp add: abort_reabse_def run_git_shift split: prod.splits option.splits)

lemma force_push_shift:
  "force_push_no_verify r b (shift tr s) = shift tr (force_push_no_verify r b s)"
  by (simp add: force_push_no_verify_def run_git_shift shift_simps(3) [symmetric]
        del: shift_simps(3) split: prod.splits option.splits)

lemma rebase_onto_shift:
  "rebase_onto r new_base feature (shift tr s) = apsnd (shift tr) (rebase_onto r new_base feature s)"
  by (simp add: rebase_onto_def Let_def run_git_shift shift_simps(3) [symmetric]
        del: shift_simps(3) split: prod.splits option.splits)

lemma cascade_rebase_shift:
  "cascade_rebase repo parent bname push_updates (shift tr s)
   = shift_step tr (cascade_rebase repo parent bname push_updates s)"
proof (cases repo)
  case None
  then show ?thesis by (simp add: cascade_rebase_def shift_step_def)
next
  case (Some r)
  obtain res s1 where r: "rebase_onto r parent bname
      (print (''Rebasing '' @ bname @ '' onto '' @ parent @ ''...'') s) = (res, s1)"
    by (cases "rebase_onto r parent bname
      (print (''Rebasing '' @ bname @ '' onto '' @ parent @ ''...'') s)") auto
  then have r': "rebase_onto r parent bname
      (print (''Rebasing '' @ bname @ '' onto '' @ parent @ ''...'') (shift tr s))
      = (res, shift tr s1)"
    by (simp add: shift_simps(3) [symmetric] rebase_onto_shift del: shift_simps(3))
  show ?thesis
  proof (cases res)
    case (Inr cmd)
    with Some r r' show ?thesis
      by (simp add: cascade_rebase_def shift_step_def Let_def force_push_shift
            shift_simps(3) [symmetric] del: shift_simps(3))
  next
    case (Inl e)
    with Some r r' show ?thesis
      by (cases e)
         (simp_all add: cascade_rebase_def shift_step_def abort_reabse_shift
            shift_simps(3) [symmetric] del: shift_simps(3))
  qed
qed

lemma enter_child_shift:
  "enter_child b active depth repo cascade color push_updates (shift tr s)
   = shift_step tr (enter_child b active depth repo cascade color push_updates s)"
  by (simp add: enter_child_def cascade_rebase_shift shift_simps(3) [symmetric]
        del: shift_simps(3) split: sum.splits)
     (simp add: shift_step_def)

lemma active_branch_shift:
  "fst (active_branch_from_repo repo False (shift tr s))
   = fst (active_branch_from_repo repo False s)"
  by (simp add: active_branch_from_repo_def split: option.splits sum.splits)

lemma loop_shift:
  assumes "\<And>cur depth s.
     print_tree n dag cur depth repo cascade color push_updates (shift tr s)
     = map_option (apsnd (shift tr)) (print_tree n dag cur depth repo cascade color push_updates s)"
  shows "print_tree_loop n dag cs active depth repo cascade color push_updates (shift tr s)
     = map_option (apsnd (shift tr))
         (print_tree_loop n dag cs active depth repo cascade color push_updates s)"
proof (induction cs arbitrary: s)
  case Nil
  then show ?case by simp
next
  case (Cons c cs)
  show ?case
  proof (cases "enter_child c active depth repo cascade color push_updates s")
    case (Raised e s1)
    then show ?thesis
      by (simp add: print_tree_loop_Cons enter_child_shift shift_step_def del: walk_simps_del)
  next
    case (Continue s1)
    with Cons show ?thesis
      by (simp add: print_tree_loop_Cons enter_child_shift shift_step_def del: walk_simps_del)
  next
    case (Descend s1)
    with Cons assms show ?thesis
      by (auto simp add: print_tree_loop_Cons enter_child_shift shift_step_def
            simp del: walk_simps_del split: option.splits sum.splits)
  qed
qed

lemma tree_shift:
  "print_tree n dag cur depth repo cascade color push_updates (shift tr s)
   = map_option (apsnd (shift tr)) (print_tree n dag cur depth repo cascade color push_updates s)"
proof (induction n arbitrary: cur depth s)
  case 0
  then show ?case by simp
next
  case (Suc n)
  show ?case
  proof (cases cur)
    case None
    then show ?thesis
      by (subst print_tree.simps, subst active_branch_quiet,
          subst print_tree.simps, subst active_branch_quiet) simp
  next
    case (Some c)
    show ?thesis
      unfolding Some
      by (simp add: print_tree_Suc active_branch_shift Suc.IH
            loop_shift [of n dag repo cascade color push_updates tr, OF Suc.IH]
            shift_simps(3) [symmetric]
            del: walk_simps_del shift_simps(3) split: option.splits sum.splits)
  qed
qed

subsection \<open>Rendering without cascade only prints\<close>

lemma only_prints_simps [simp]:
  "only_prints []"
  "only_prints (Stdout line # es) = only_prints es"
  "only_prints (es @ es') = (only_prints es \<and> only_prints es')"
  by (auto simp: only_prints_def)

lemma enter_child_render:
  "enter_child b active depth repo False color push_updates s = x \<Longrightarrow>
   (\<exists>e. x = Raised e s) \<or> (\<exists>line. x = Descend (print line s))"
  by (auto simp: enter_child_def split: sum.splits)

lemma loop_render:
  assumes "\<And>cur depth s res s'.
     print_tree n dag cur depth repo False color push_updates s = Some (res, s') \<Longrightarrow>
     world s' = world s \<and> (\<exists>ev. trace s' = trace s @ ev \<and> only_prints ev)"
  shows "print_tree_loop n dag cs active depth repo False color push_updates s = Some (res, s')
     \<Longrightarrow> world s' = world s \<and> (\<exists>ev. trace s' = trace s @ ev \<and> only_prints ev)"
proof (induction cs arbitrary: s)
  case Nil
  then show ?case by simp
next
  case (Cons c cs)
  from enter_child_render [OF refl, of c active depth repo color push_updates s]
  consider e where "enter_child c active depth repo False color push_updates s = Raised e s"
    | line where "enter_child c active depth repo False color push_updates s
                  = Descend (print line s)"
    by blast
  then show ?case
  proof cases
    case 1
    with Cons.prems show ?thesis
      by (simp add: print_tree_loop_Cons del: walk_simps_del)
  next
    case 2
    from Cons.prems 2 obtain r1 s1 where
      t: "print_tree n dag (Some (ref_name (name c))) (depth + 1) repo False color push_updates
            (print line s) = Some (r1, s1)"
      by (cases "print_tree n dag (Some (ref_name (name c))) (depth + 1) repo False color
            push_updates (print line s)")
         (auto simp add: print_tree_loop_Cons simp del: walk_simps_del)
    from assms [OF t] obtain ev1 where
      1: "world s1 = world s" "trace s1 = trace s @ Stdout line # ev1" "only_prints ev1"
      by (auto simp: print_def)
    show ?thesis
    proof (cases "r1 = Inr True")
      case False
      with Cons.prems 2 t have "s' = s1"
        by (cases r1) (auto simp add: print_tree_loop_Cons simp del: walk_simps_del)
      with 1 show ?thesis by simp
    next
      case True
      with Cons.prems 2 t have
        "print_tree_loop n dag cs active depth repo False color push_updates s1 = Some (res, s')"
        by (simp add: print_tree_loop_Cons del: walk_simps_del)
      from Cons.IH [OF this] obtain ev2 where
        "world s' = world s1" "trace s' = trace s1 @ ev2" "only_prints ev2" by blast
      with 1 show ?thesis by simp
    qed
  qed
qed

lemma tree_render:
  "print_tree n dag cur depth repo False color push_updates s = Some (res, s') \<Longrightarrow>
   world s' = world s \<and> (\<exists>ev. trace s' = trace s @ ev \<and> only_prints ev)"
proof (induction n arbitrary: cur depth s res s')
  case 0
  then show ?case by simp
next
  case (Suc n)
  show ?case
  proof (cases cur)
    case None
    with Suc.prems show ?thesis
      by (subst (asm) print_tree.simps, subst (asm) active_branch_quiet) simp
  next
    case (Some c)
    show ?thesis
    proof (cases "dag c")
      case None
      with Suc.prems Some show ?thesis by (simp add: print_tree_Suc del: walk_simps_del)
    next
      case cs: (Some cs)
      show ?thesis
      proof (cases "depth = 0")
        case False
        with Suc.prems Some cs have "print_tree_loop n dag cs
            (fst (active_branch_from_repo repo False s)) depth repo False color push_updates s
            = Some (res, s')"
          by (simp add: print_tree_Suc del: walk_simps_del)
        moreover have "\<And>cur depth s res s'.
            print_tree n dag cur depth repo False color push_updates s = Some (res, s') \<Longrightarrow>
            world s' = world s \<and> (\<exists>ev. trace s' = trace s @ ev \<and> only_prints ev)"
          by (rule Suc.IH)
        ultimately show ?thesis
          by (rule loop_render [rotated])
      next
        case True
        show ?thesis
        proof (cases "create_branch_str c (fst (active_branch_from_repo repo False s)) 0 [] None
                        (\<not> color) (world s)")
          case (Inl e)
          with Suc.prems Some cs True show ?thesis
            by (simp add: print_tree_Suc del: walk_simps_del)
        next
          case (Inr line)
          with Suc.prems Some cs True have
            "print_tree n dag (Some c) 1 repo False color push_updates (print line s)
             = Some (res, s')"
            by (simp add: print_tree_Suc del: walk_simps_del)
          from Suc.IH [OF this] show ?thesis by (auto simp: print_def)
        qed
      qed
    qed
  qed
qed

lemma dag_render:
  "print_dag n dag roots repo False color push_updates s = Some (res, s') \<Longrightarrow>
   world s' = world s \<and> (\<exists>ev. trace s' = trace s @ ev \<and> only_prints ev)"
proof (induction roots arbitrary: s)
  case Nil
  then show ?case by simp
next
  case (Cons root roots)
  from Cons.prems obtain r1 s1 where
    t: "print_tree n dag root 0 repo False color push_updates s = Some (r1, s1)"
    by (cases "print_tree n dag root 0 repo False color push_updates s") auto
  from tree_render [OF t] obtain ev1 where
    1: "world s1 = world s" "trace s1 = trace s @ ev1" "only_prints ev1" by blast
  show ?case
  proof (cases "r1 = Inr True")
    case False
    with Cons.prems t have "s' = s1" by (cases r1) auto
    with 1 show ?thesis by simp
  next
    case True
    with Cons.prems t have "print_dag n dag roots repo False color push_updates s1 = Some (res, s')"
      by simp
    from Cons.IH [OF this] obtain ev2 where
      "world s' = world s1" "trace s' = trace s1 @ ev2" "only_prints ev2" by blast
    with 1 show ?thesis by simp
  qed
qed

subsection \<open>The roots and the render loop\<close>

lemma roots_count:
  "startswith t ''origin'' \<Longrightarrow>
   count_list (snd (build_git_dag bs)) t =
     length (filter (tracks t) bs)
     + length (filter (\<lambda>b. tracking_branch b = None \<and> ref_name (name b) = t) bs)"
  unfolding build_git_dag_roots
  by (induction bs) (auto simp: root_entry_def tracks_def split: option.splits)

lemma shift_empty: "shift tr \<lparr>world = w, trace = []\<rparr> = \<lparr>world = w, trace = tr\<rparr>"
  by (simp add: shift_def)

lemma print_dag_renders:
  assumes "\<forall>root \<in> set roots.
      print_tree n dag root 0 repo False color push_updates \<lparr>world = w, trace = []\<rparr>
      = Some (Inr True, \<lparr>world = w, trace = L root\<rparr>)"
  shows "print_dag n dag roots repo False color push_updates \<lparr>world = w, trace = tr\<rparr>
      = Some (Inr (), \<lparr>world = w, trace = tr @ concat (map L roots)\<rparr>)"
  using assms
proof (induction roots arbitrary: tr)
  case Nil
  then show ?case by simp
next
  case (Cons root roots)
  have "print_tree n dag root 0 repo False color push_updates (shift tr \<lparr>world = w, trace = []\<rparr>)
        = Some (Inr True, shift tr \<lparr>world = w, trace = L root\<rparr>)"
    using Cons.prems by (simp add: tree_shift)
  then have "print_tree n dag root 0 repo False color push_updates \<lparr>world = w, trace = tr\<rparr>
        = Some (Inr True, \<lparr>world = w, trace = tr @ L root\<rparr>)"
    by (simp add: shift_def)
  with Cons show ?case by simp
qed

text \<open>
  C10. The roots are not deduplicated. A name \<open>t\<close> that starts with \<open>origin\<close> occurs in
  the roots once for every enumerated branch that tracks it (and once for every branch
  without tracking branch that bears this name), so twice or more when two or more local
  branches track it. The render loop of \<^verbatim>\<open>print_dag\<close> renders each entry of the roots in
  turn, in the same repository state: where the walk from a root prints the lines
  \<open>L root\<close>, the loop prints them once per occurrence of the root.
\<close>

theorem roots_not_deduplicated:
  "(startswith t ''origin'' \<longrightarrow>
      count_list (snd (build_git_dag bs)) t =
        length (filter (tracks t) bs)
        + length (filter (\<lambda>b. tracking_branch b = None \<and> ref_name (name b) = t) bs))
   \<and> ((\<forall>root \<in> set roots.
          print_tree n dag root 0 repo False color push_updates \<lparr>world = w, trace = []\<rparr>
          = Some (Inr True, \<lparr>world = w, trace = L root\<rparr>)) \<longrightarrow>
        print_dag n dag roots repo False color push_updates \<lparr>world = w, trace = tr\<rparr>
        = Some (Inr (), \<lparr>world = w, trace = tr @ concat (map L roots)\<rparr>))"
  using roots_count [of t bs] print_dag_renders [of roots n dag repo color push_updates w L tr]
  by blast

lemma ex_render_origin:
  "print_tree 6 (fst (build_git_dag ex_branches)) (Some ''origin/master'') 0 (Some ex_repo_on)
     False False False \<lparr>world = ''master'', trace = []\<rparr>
   = Some (Inr True, \<lparr>world = ''master'', trace = ex_lines (Some ''origin/master'')\<rparr>)"
  by code_simp

lemma ex_render_scratch:
  "print_tree 6 (fst (build_git_dag ex_branches)) (Some ''scratch'') 0 (Some ex_repo_on)
     False False False \<lparr>world = ''master'', trace = []\<rparr>
   = Some (Inr True, \<lparr>world = ''master'', trace = ex_lines (Some ''scratch'')\<rparr>)"
  by code_simp

lemma ex_tracks_origin:
  "length (filter (tracks ''origin/master'') ex_branches)
   + length (filter (\<lambda>b. tracking_branch b = None \<and> ref_name (name b) = ''origin/master'')
       ex_branches) = 2"
  by (simp add: tracks_def ex_defs ex_names)

theorem roots_not_deduplicated_witness:
  "startswith ''origin/master'' ''origin''
   \<and> count_list (snd (build_git_dag ex_branches)) ''origin/master'' = 2
   \<and> snd (build_git_dag ex_branches) = [''origin/master'', ''origin/master'', ''scratch'']
   \<and> print_tree 6 (fst (build_git_dag ex_branches)) (Some ''origin/master'') 0
        (Some ex_repo_on) False False False \<lparr>world = ''master'', trace = []\<rparr>
      = Some (Inr True, \<lparr>world = ''master'', trace = ex_lines (Some ''origin/master'')\<rparr>)
   \<and> print_tree 6 (fst (build_git_dag ex_branches)) (Some ''scratch'') 0
        (Some ex_repo_on) False False False \<lparr>world = ''master'', trace = []\<rparr>
      = Some (Inr True, \<lparr>world = ''master'', trace = ex_lines (Some ''scratch'')\<rparr>)
   \<and> print_dag 6 (fst (build_git_dag ex_branches)) (map Some (snd (build_git_dag ex_branches)))
        (Some ex_repo_on) False False False \<lparr>world = ''master'', trace = []\<rparr>
      = Some (Inr (),
          \<lparr>world = ''master'',
           trace = ex_lines (Some ''origin/master'') @ ex_lines (Some ''origin/master'')
                   @ ex_lines (Some ''scratch'')\<rparr>)"
proof -
  have sw: "startswith ''origin/master'' ''origin''" by (simp add: startswith_def)
  have c: "count_list (snd (build_git_dag ex_branches)) ''origin/master'' = 2"
    using roots_not_deduplicated [THEN conjunct1, rule_format, OF sw, of ex_branches]
    by (simp only: ex_tracks_origin)
  have r: "\<forall>root \<in> set (map Some (snd (build_git_dag ex_branches))).
        print_tree 6 (fst (build_git_dag ex_branches)) root 0 (Some ex_repo_on) False False False
          \<lparr>world = ''master'', trace = []\<rparr>
        = Some (Inr True, \<lparr>world = ''master'', trace = ex_lines root\<rparr>)"
    by (simp add: ex_roots ex_render_origin ex_render_scratch)
  have d: "print_dag 6 (fst (build_git_dag ex_branches)) (map Some (snd (build_git_dag ex_branches)))
        (Some ex_repo_on) False False False \<lparr>world = ''master'', trace = []\<rparr>
      = Some (Inr (),
          \<lparr>world = ''master'',
           trace = [] @ concat (map ex_lines (map Some (snd (build_git_dag ex_branches))))\<rparr>)"
    using roots_not_deduplicated [THEN conjunct2, THEN mp, OF r] .
  have "concat (map ex_lines (map Some (snd (build_git_dag ex_branches))))
        = ex_lines (Some ''origin/master'') @ ex_lines (Some ''origin/master'')
          @ ex_lines (Some ''scratch'')"
    by (simp add: ex_roots)
  with d sw c ex_roots ex_render_origin ex_render_scratch show ?thesis by simp
qed

end
